theory Spec2Isabelle
  imports Main
begin

section \<open>The interaction table of nnrecommend.dataset\<close>

text \<open>
  The class \<open>Dataset\<close> of \<open>nnrecommend/dataset/__init__.py\<close> holds a two-dimensional
  numpy array \<open>__interactions\<close> and the attribute \<open>idrange\<close>. The array is a list of
  rows together with its number of columns (\<open>shape[1]\<close>, which a table without rows
  still has); the cells are integers. Python exceptions are values of \<open>py_error\<close>.
\<close>

datatype py_error = AssertionError | ValueError | IndexError | TypeError

record dataset =
  interactions :: "int list list"
  ncols :: nat
  idrange :: "int list option"

text \<open>A numpy array is rectangular, and the constructor asserts more than two columns.\<close>

definition wf_dataset :: "dataset \<Rightarrow> bool" where
  "wf_dataset d \<longleftrightarrow> 2 < ncols d \<and> list_all (\<lambda>row. length row = ncols d) (interactions d)"

text \<open>\<open>Dataset.__init__\<close>: a table of two columns gets a label column of ones.\<close>

definition Dataset_init :: "nat \<Rightarrow> int list list \<Rightarrow> py_error + dataset" where
  "Dataset_init c rows =
     (let c' = (if c = 2 then 3 else c);
          rows' = (if c = 2 then map (\<lambda>row. row @ [1]) rows else rows)
      in if 2 < c' then Inr \<lparr>interactions = rows', ncols = c', idrange = None\<rparr>
         else Inl AssertionError)"

subsection \<open>Normalizing the ids\<close>

text \<open>\<open>self.__interactions[:, i]\<close> and \<open>np.sort(np.unique(ids))\<close>.\<close>

definition column :: "nat \<Rightarrow> int list list \<Rightarrow> int list" where
  "column i rows = map (\<lambda>row. row ! i) rows"

definition np_unique :: "int list \<Rightarrow> int list" where
  "np_unique ids = sort (remdups ids)"

text \<open>
  \<open>bisect.bisect_left(a, x)\<close> of the standard library, the loop
  \<^verbatim>\<open>while lo < hi: mid = (lo + hi) // 2; if a[mid] < x: lo = mid + 1 else: hi = mid\<close>.
\<close>

function bisect_loop :: "int list \<Rightarrow> int \<Rightarrow> nat \<Rightarrow> nat \<Rightarrow> nat" where
  "bisect_loop a x lo hi =
     (if lo < hi
      then (if a ! ((lo + hi) div 2) < x
            then bisect_loop a x ((lo + hi) div 2 + 1) hi
            else bisect_loop a x lo ((lo + hi) div 2))
      else lo)"
  by pat_completeness auto
termination
  by (relation "measure (\<lambda>(a, x, lo, hi). hi - lo)") auto

declare bisect_loop.simps [simp del]

definition bisect_left :: "int list \<Rightarrow> int \<Rightarrow> nat" where
  "bisect_left a x = bisect_loop a x 0 (length a)"

text \<open>The local function \<open>find\<close> of \<open>normalize_ids\<close>: the rank of the value, or -1.\<close>

definition find_norm :: "int list \<Rightarrow> int \<Rightarrow> int" where
  "find_norm container val =
     (let idx = bisect_left container val
      in if length container \<le> idx then - 1
         else if container ! idx \<noteq> val then - 1
         else int idx)"

text \<open>
  The loop over the columns of the mapping: column \<open>i\<close> of every row is replaced by
  \<open>find(colmapping, row[i]) + diff\<close>, and \<open>idrange[i]\<close> is the running sum of the
  lengths. The function returns the rows and \<open>idrange\<close> from position \<open>i\<close> on.
\<close>

fun normalize_cols :: "int list list \<Rightarrow> nat \<Rightarrow> int \<Rightarrow> int list list \<Rightarrow> int list list \<times> int list" where
  "normalize_cols [] i diff rows = (rows, [])"
| "normalize_cols (colmapping # mapping) i diff rows =
     (let rows' = map (\<lambda>row. row[i := find_norm colmapping (row ! i) + diff]) rows;
          diff' = diff + int (length colmapping);
          (rows'', rng) = normalize_cols mapping (Suc i) diff' rows'
      in (rows'', diff' # rng))"

text \<open>\<open>__remove_negative_ids\<close>: keep the rows whose first two columns are not negative.\<close>

definition remove_negative_ids :: "dataset \<Rightarrow> dataset" where
  "remove_negative_ids d =
     d\<lparr>interactions := filter (\<lambda>row. list_all (\<lambda>v. 0 \<le> v) (take 2 row)) (interactions d)\<rparr>"

definition derive_mapping :: "dataset \<Rightarrow> int list list" where
  "derive_mapping d = map (\<lambda>i. np_unique (column i (interactions d))) [0 ..< ncols d - 1]"

definition normalize_ids :: "int list list option \<Rightarrow> bool \<Rightarrow> dataset \<Rightarrow> py_error + (int list list \<times> dataset)" where
  "normalize_ids mapping remove_missing d =
     (case (case mapping of
              None \<Rightarrow> Inr (derive_mapping d)
            | Some m \<Rightarrow> if length m + 1 = ncols d then Inr m else Inl AssertionError) of
        Inl e \<Rightarrow> Inl e
      | Inr m \<Rightarrow>
          (let (rows, rng) = normalize_cols m 0 0 (interactions d);
               d' = d\<lparr>interactions := rows, idrange := Some rng\<rparr>
           in Inr (m, if remove_missing then remove_negative_ids d' else d')))"

text \<open>
  The sub-range of normalized ids that \<open>idrange\<close> gives to column \<open>i\<close>: from the bound of
  the column before it (0 for the first column) up to its own bound, which is excluded.
  \<open>get_random_negative_row\<close> reads it as \<open>minv, maxv = self.idrange[i-1:i+1]\<close>.
\<close>

definition sub_range :: "int list \<Rightarrow> nat \<Rightarrow> int set" where
  "sub_range rng i = {(if i = 0 then 0 else rng ! (i - 1)) ..< rng ! i}"

text \<open>
  The invariant of a normalized table: \<open>idrange\<close> is set, with one bound for every column
  but the label, the bounds are cumulative widths (they start at 0 or above and never go
  down), and every cell of these columns lies in the sub-range of its column.
\<close>

definition id_normalized :: "dataset \<Rightarrow> bool" where
  "id_normalized d \<longleftrightarrow>
     wf_dataset d \<and>
     (case idrange d of
        None \<Rightarrow> False
      | Some rng \<Rightarrow>
          length rng + 1 = ncols d \<and> sorted (0 # rng) \<and>
          list_all (\<lambda>row. list_all (\<lambda>i. row ! i \<in> sub_range rng i) [0 ..< length rng])
            (interactions d))"

subsection \<open>Back to the raw ids\<close>

text \<open>The local function \<open>find\<close> of \<open>denormalize_ids\<close>: the raw id at a position, or -1.\<close>

definition find_denorm :: "int list \<Rightarrow> int \<Rightarrow> int" where
  "find_denorm container val =
     (if val < 0 \<or> int (length container) \<le> val then - 1 else container ! nat val)"

fun denormalize_cols :: "int list list \<Rightarrow> nat \<Rightarrow> int \<Rightarrow> int list list \<Rightarrow> int list list" where
  "denormalize_cols [] i diff rows = rows"
| "denormalize_cols (colmapping # mapping) i diff rows =
     denormalize_cols mapping (Suc i) (diff + int (length colmapping))
       (map (\<lambda>row. row[i := find_denorm colmapping (row ! i - diff)]) rows)"

definition denormalize_ids :: "int list list \<Rightarrow> bool \<Rightarrow> dataset \<Rightarrow> py_error + dataset" where
  "denormalize_ids mapping remove_missing d =
     (if length mapping + 1 \<noteq> ncols d then Inl AssertionError
      else (let d' = d\<lparr>interactions := denormalize_cols mapping 0 0 (interactions d)\<rparr>;
                d'' = (if remove_missing then remove_negative_ids d' else d')
            in Inr (d''\<lparr>idrange := None\<rparr>)))"

text \<open>\<open>if self.idrange is None: self.normalize_ids()\<close>, at the head of several methods.\<close>

definition ensure_normalized :: "dataset \<Rightarrow> py_error + dataset" where
  "ensure_normalized d =
     (if idrange d = None then map_sum id snd (normalize_ids None True d) else Inr d)"

subsection \<open>Negative sampling\<close>

text \<open>
  \<open>np.random.randint\<close> draws from the process-wide generator. The generator is a tape
  of natural numbers, the raw output still to come; a draw takes the head of the tape and
  scales it into \<open>[low, high)\<close>, so every value of the range is the image of some tape.
  A call that returns gives its result and the rest of the tape (\<open>Returns\<close>), a call
  that raises gives the exception (\<open>Raises\<close>), and a call whose retry loop is still
  running when the tape ends is \<open>Pending\<close>: it has not returned on this tape.
\<close>

datatype 'a outcome = Returns 'a | Raises py_error | Pending

definition randint :: "int \<Rightarrow> int \<Rightarrow> nat \<Rightarrow> int" where
  "randint low high t = low + int t mod (high - low)"

text \<open>
  The loop \<^verbatim>\<open>while v is None or v == row[i]: v = np.random.randint(minv, maxv)\<close>;
  \<open>randint\<close> raises \<open>ValueError\<close> on an empty range.
\<close>

fun draw_value :: "int \<Rightarrow> int \<Rightarrow> int \<Rightarrow> nat list \<Rightarrow> (int \<times> nat list) outcome" where
  "draw_value minv maxv cur [] = (if maxv \<le> minv then Raises ValueError else Pending)"
| "draw_value minv maxv cur (t # tape) =
     (if maxv \<le> minv then Raises ValueError
      else if randint minv maxv t = cur then draw_value minv maxv cur tape
      else Returns (randint minv maxv t, tape))"

text \<open>The loop \<open>for i in range(1, nrow.shape[0]-1)\<close> over the columns to redraw.\<close>

fun redraw_cols :: "int list \<Rightarrow> int list \<Rightarrow> nat list \<Rightarrow> int list \<Rightarrow> nat list \<Rightarrow> (int list \<times> nat list) outcome" where
  "redraw_cols rng row [] nrow tape = Returns (nrow, tape)"
| "redraw_cols rng row (i # cols) nrow tape =
     (case draw_value (rng ! (i - 1)) (rng ! i) (row ! i) tape of
        Returns (v, tape') \<Rightarrow> redraw_cols rng row cols (nrow[i := v]) tape'
      | Raises e \<Rightarrow> Raises e
      | Pending \<Rightarrow> Pending)"

definition get_random_negative_row :: "int list option \<Rightarrow> int list \<Rightarrow> nat list \<Rightarrow> (int list \<times> nat list) outcome" where
  "get_random_negative_row idr row tape =
     (case idr of
        None \<Rightarrow> Raises AssertionError
      | Some rng \<Rightarrow>
          if length row < length rng then Raises AssertionError
          else if row = [] then Raises IndexError
          else redraw_cols rng row [1 ..< length rng]
                 ((replicate (length rng + 1) 0)[0 := row ! 0]) tape)"

text \<open>\<open>itertools.combinations(row[:-1], 2)\<close> and \<open>__row_comb_in_container\<close>.\<close>

fun combinations2 :: "'a list \<Rightarrow> ('a \<times> 'a) list" where
  "combinations2 [] = []"
| "combinations2 (x # xs) = map (Pair x) xs @ combinations2 xs"

definition row_comb_in_container :: "int list \<Rightarrow> (int \<times> int) set \<Rightarrow> bool" where
  "row_comb_in_container row container =
     list_ex (\<lambda>comb. comb \<in> container) (combinations2 (butlast row))"

text \<open>
  The loop \<open>while nrow is None or self.__row_comb_in_container(nrow, container)\<close> of
  \<open>get_random_negative_rows\<close> has no bound in the source. In the model it ends because a
  rejected row has at least three cells, so that drawing it has used up some of the tape.
\<close>

lemma draw_value_tape:
  "draw_value minv maxv cur tape = Returns (v, tape') \<Longrightarrow> length tape' < length tape"
  by (induction tape) (auto split: if_splits)

lemma redraw_cols_tape:
  "redraw_cols rng row cols nrow tape = Returns (nrow', tape') \<Longrightarrow>
   length tape' \<le> length tape \<and> (cols \<noteq> [] \<longrightarrow> length tape' < length tape) \<and>
   length nrow' = length nrow"
proof (induction cols arbitrary: nrow tape)
  case Nil
  then show ?case by simp
next
  case (Cons i cols)
  from Cons.prems obtain v tape1 where
    d: "draw_value (rng ! (i - 1)) (rng ! i) (row ! i) tape = Returns (v, tape1)" and
    r: "redraw_cols rng row cols (nrow[i := v]) tape1 = Returns (nrow', tape')"
    by (auto split: outcome.splits)
  from Cons.IH [OF r] draw_value_tape [OF d] show ?case by simp
qed

lemma combinations2_empty: "combinations2 xs \<noteq> [] \<Longrightarrow> 2 \<le> length xs"
  by (induction xs) (auto split: if_splits simp: Suc_le_eq)

lemma upt_from_one_nonempty: "1 < (n::nat) \<Longrightarrow> [1 ..< n] \<noteq> []"
  by (cases n) simp_all

lemma negative_row_tape:
  assumes "get_random_negative_row idr row tape = Returns (nrow, tape')"
    and "row_comb_in_container nrow container"
  shows "length tape' < length tape"
proof -
  from assms(1) obtain rng where rng: "idr = Some rng"
    and r: "redraw_cols rng row [1 ..< length rng] ((replicate (length rng + 1) 0)[0 := row ! 0]) tape
            = Returns (nrow, tape')"
    by (auto simp: get_random_negative_row_def split: option.splits if_splits)
  from assms(2) have "combinations2 (butlast nrow) \<noteq> []"
    by (auto simp: row_comb_in_container_def list_ex_iff)
  then have "2 \<le> length (butlast nrow)" by (rule combinations2_empty)
  moreover from redraw_cols_tape [OF r] have "length nrow = length rng + 1" by simp
  ultimately have "1 < length rng" by simp
  then have "[1 ..< length rng] \<noteq> []" by (rule upt_from_one_nonempty)
  moreover note redraw_cols_tape [OF r]
  ultimately show ?thesis by (elim conjE impE)
qed

function sample_row :: "int list option \<Rightarrow> (int \<times> int) set \<Rightarrow> int list \<Rightarrow> nat list \<Rightarrow> (int list \<times> nat list) outcome" where
  "sample_row idr container row tape =
     (case get_random_negative_row idr row tape of
        Returns (nrow, tape') \<Rightarrow>
          if row_comb_in_container nrow container then sample_row idr container row tape'
          else Returns (nrow, tape')
      | Raises e \<Rightarrow> Raises e
      | Pending \<Rightarrow> Pending)"
  by pat_completeness auto
termination
  by (relation "measure (\<lambda>(idr, container, row, tape). length tape)")
     (auto dest: negative_row_tape)

declare sample_row.simps [simp del]

text \<open>The loop \<open>for i in range(num)\<close> that fills \<open>nrows\<close>.\<close>

fun sample_rows :: "int list option \<Rightarrow> (int \<times> int) set \<Rightarrow> int list \<Rightarrow> nat \<Rightarrow> nat list \<Rightarrow> (int list list \<times> nat list) outcome" where
  "sample_rows idr container row 0 tape = Returns ([], tape)"
| "sample_rows idr container row (Suc k) tape =
     (case sample_row idr container row tape of
        Returns (nrow, tape') \<Rightarrow>
          (case sample_rows idr container row k tape' of
             Returns (nrows, tape'') \<Rightarrow> Returns (nrow # nrows, tape'')
           | Raises e \<Rightarrow> Raises e
           | Pending \<Rightarrow> Pending)
      | Raises e \<Rightarrow> Raises e
      | Pending \<Rightarrow> Pending)"

text \<open>
  \<open>get_random_negative_rows\<close>: \<open>len(self.idrange)\<close> is a \<open>TypeError\<close> without an
  \<open>idrange\<close>, and \<open>np.zeros\<close> refuses a negative number of rows.
\<close>

definition get_random_negative_rows :: "int list option \<Rightarrow> (int \<times> int) set \<Rightarrow> int list \<Rightarrow> int \<Rightarrow> nat list \<Rightarrow> (int list list \<times> nat list) outcome" where
  "get_random_negative_rows idr container row num tape =
     (if idr = None then Raises TypeError
      else if num < 0 then Raises ValueError
      else sample_rows idr container row (nat num) tape)"

text \<open>
  The assignment \<open>data[a:b, :] = value\<close>: numpy broadcasts the value to the shape of the
  slice, a dimension of length one being repeated, and raises \<open>ValueError\<close> otherwise.
\<close>

definition broadcast_to :: "nat \<Rightarrow> 'a list \<Rightarrow> py_error + 'a list" where
  "broadcast_to k xs =
     (if length xs = k then Inr xs
      else if length xs = 1 then Inr (replicate k (hd xs))
      else Inl ValueError)"

definition assign_slice :: "nat \<Rightarrow> int list list \<Rightarrow> nat \<Rightarrow> nat \<Rightarrow> int list list \<Rightarrow> py_error + int list list" where
  "assign_slice c data a b val =
     (let k = min b (length data) - a
      in case broadcast_to k val of
           Inl e \<Rightarrow> Inl e
         | Inr rows \<Rightarrow>
             if list_all (\<lambda>row. length row = c) rows then Inr (take a data @ rows @ drop (a + k) data)
             else if list_all (\<lambda>row. length row = 1) rows
             then Inr (take a data @ map (\<lambda>row. replicate c (hd row)) rows @ drop (a + k) data)
             else Inl ValueError)"

text \<open>\<open>np.repeat(self.__interactions, n, axis=0)\<close>.\<close>

definition np_repeat :: "nat \<Rightarrow> 'a list \<Rightarrow> 'a list" where
  "np_repeat n rows = concat (map (replicate n) rows)"

text \<open>The loop \<open>for i, row in enumerate(self.__interactions)\<close> of \<open>add_negative_sampling\<close>.\<close>

fun sampling_loop :: "int list option \<Rightarrow> (int \<times> int) set \<Rightarrow> int \<Rightarrow> nat \<Rightarrow> (nat \<times> int list) list \<Rightarrow> int list list \<Rightarrow> nat list \<Rightarrow> (int list list \<times> nat list) outcome" where
  "sampling_loop idr container num c [] data tape = Returns (data, tape)"
| "sampling_loop idr container num c ((i, row) # rest) data tape =
     (case get_random_negative_rows idr container row num tape of
        Returns (nrows, tape') \<Rightarrow>
          (case assign_slice c data (1 + nat (num + 1) * i) (nat (num + 1) * (i + 1)) nrows of
             Inl e \<Rightarrow> Raises e
           | Inr data' \<Rightarrow> sampling_loop idr container num c rest data' tape')
      | Raises e \<Rightarrow> Raises e
      | Pending \<Rightarrow> Pending)"

definition add_negative_sampling :: "(int \<times> int) set \<Rightarrow> int \<Rightarrow> dataset \<Rightarrow> nat list \<Rightarrow> (dataset \<times> nat list) outcome" where
  "add_negative_sampling container num d tape =
     (if num \<le> 0 then Returns (d, tape)
      else case sampling_loop (idrange d) container num (ncols d)
                  (enumerate 0 (interactions d))
                  (np_repeat (nat (num + 1)) (interactions d)) tape of
             Returns (data, tape') \<Rightarrow> Returns (d\<lparr>interactions := data\<rparr>, tape')
           | Raises e \<Rightarrow> Raises e
           | Pending \<Rightarrow> Pending)"

text \<open>
  What the sampling loops make of a row: a row with one cell for every entry of
  \<open>idrange\<close> and one more, with the user of the source row, a 0 in the last cell, in every
  column between them a value of the sub-range of the column that is not the source's,
  and no pair of cells before the last in the container.
\<close>

definition negative_of :: "int list \<Rightarrow> (int \<times> int) set \<Rightarrow> int list \<Rightarrow> int list \<Rightarrow> bool" where
  "negative_of rng container row nrow \<longleftrightarrow>
     length nrow = length rng + 1 \<and> nrow ! 0 = row ! 0 \<and> nrow ! length rng = 0 \<and>
     list_all (\<lambda>i. nrow ! i \<noteq> row ! i \<and> nrow ! i \<in> sub_range rng i) [1 ..< length rng] \<and>
     \<not> row_comb_in_container nrow container"

subsection \<open>Splitting off the test table\<close>

text \<open>
  \<open>rowsbyuser\<close> is a dictionary from the user to the indices of the user's rows with a
  positive label; a Python dictionary keeps its keys in the order of their insertion,
  and the second loop of \<open>extract_test_dataset\<close> goes through it in that order.
\<close>

fun dict_append :: "int \<Rightarrow> nat \<Rightarrow> (int \<times> nat list) list \<Rightarrow> (int \<times> nat list) list" where
  "dict_append u i [] = [(u, [i])]"
| "dict_append u i ((k, userrows) # rowsbyuser) =
     (if k = u then (k, userrows @ [i]) # rowsbyuser
      else (k, userrows) # dict_append u i rowsbyuser)"

fun group_rows :: "(nat \<times> int list) list \<Rightarrow> (int \<times> nat list) list \<Rightarrow> (int \<times> nat list) list" where
  "group_rows [] rowsbyuser = rowsbyuser"
| "group_rows ((i, row) # rest) rowsbyuser =
     (if last row \<le> 0 then group_rows rest rowsbyuser
      else group_rows rest (dict_append (row ! 0) i rowsbyuser))"

text \<open>The Python slice \<open>xs[k:]\<close>, where a negative \<open>k\<close> counts from the end.\<close>

definition slice_from :: "int \<Rightarrow> 'a list \<Rightarrow> 'a list" where
  "slice_from k xs = (if k < 0 then drop (length xs - nat (- k)) xs else drop (nat k) xs)"

definition select_rows :: "int \<Rightarrow> int \<Rightarrow> (int \<times> nat list) list \<Rightarrow> nat list" where
  "select_rows num_user_interactions min_keep_user_interactions rowsbyuser =
     concat (map (\<lambda>(u, userrows).
        if int (length userrows) < num_user_interactions + min_keep_user_interactions then []
        else slice_from (- num_user_interactions) userrows) rowsbyuser)"

text \<open>
  \<open>np.delete(self.__interactions, rows, axis=0)\<close>; the indices come from \<open>enumerate\<close>,
  so they are those of rows of the table.
\<close>

definition np_delete :: "'a list \<Rightarrow> nat list \<Rightarrow> 'a list" where
  "np_delete xs rows = map snd (filter (\<lambda>(i, x). i \<notin> set rows) (enumerate 0 xs))"

text \<open>
  The indices of the rows of user \<open>u\<close> with a positive label, in the order of the table:
  what the first loop of \<open>extract_test_dataset\<close> collects for \<open>u\<close>.
\<close>

definition positive_rows :: "int list list \<Rightarrow> int \<Rightarrow> nat list" where
  "positive_rows rows u = filter (\<lambda>i. 0 < last (rows ! i) \<and> rows ! i ! 0 = u) [0 ..< length rows]"

text \<open>The method returns the test table and leaves the rest in the table itself.\<close>

definition extract_test_dataset :: "int \<Rightarrow> int \<Rightarrow> dataset \<Rightarrow> py_error + (dataset \<times> dataset)" where
  "extract_test_dataset num_user_interactions min_keep_user_interactions d =
     (case ensure_normalized d of
        Inl e \<Rightarrow> Inl e
      | Inr d1 \<Rightarrow>
          (let rows = select_rows num_user_interactions min_keep_user_interactions
                        (group_rows (enumerate 0 (interactions d1)) [])
           in case Dataset_init (ncols d1) (map (\<lambda>i. interactions d1 ! i) rows) of
                Inl e \<Rightarrow> Inl e
              | Inr testset \<Rightarrow>
                  Inr (testset\<lparr>idrange := idrange d1\<rparr>,
                       d1\<lparr>interactions := np_delete (interactions d1) rows\<rparr>)))"

subsection \<open>The adjacency matrix and the filter on degrees\<close>

text \<open>
  A scipy sparse matrix: its shape and the dictionary of its stored cells (a cell that
  is not stored reads 0). An index \<open>i\<close> of numpy or scipy into a dimension of length
  \<open>n\<close> is good from \<open>-n\<close> to \<open>n - 1\<close>, a negative one counting from the end.
\<close>

record spmatrix =
  mrows :: nat
  mcols :: nat
  cells :: "nat \<times> nat \<rightharpoonup> int"

definition np_index :: "nat \<Rightarrow> int \<Rightarrow> py_error + nat" where
  "np_index n i =
     (if i < - int n \<or> int n \<le> i then Inl IndexError
      else Inr (nat (if i < 0 then i + int n else i)))"

definition mat_get :: "spmatrix \<Rightarrow> nat \<Rightarrow> nat \<Rightarrow> int" where
  "mat_get m a b = (case cells m (a, b) of None \<Rightarrow> 0 | Some v \<Rightarrow> v)"

text \<open>\<open>matrix[i, j] = 1.0\<close> on a \<open>dok_matrix\<close>.\<close>

definition dok_set_one :: "spmatrix \<Rightarrow> int \<Rightarrow> int \<Rightarrow> py_error + spmatrix" where
  "dok_set_one m i j =
     (case np_index (mrows m) i of
        Inl e \<Rightarrow> Inl e
      | Inr a \<Rightarrow>
          (case np_index (mcols m) j of
             Inl e \<Rightarrow> Inl e
           | Inr b \<Rightarrow> Inr (m\<lparr>cells := (cells m)((a, b) \<mapsto> 1)\<rparr>)))"

fun adjacency_loop :: "int list list \<Rightarrow> spmatrix \<Rightarrow> py_error + spmatrix" where
  "adjacency_loop [] m = Inr m"
| "adjacency_loop (row # rows) m =
     (case dok_set_one m (row ! 0) (row ! 1) of
        Inl e \<Rightarrow> Inl e
      | Inr m1 \<Rightarrow>
          (case dok_set_one m1 (row ! 1) (row ! 0) of
             Inl e \<Rightarrow> Inl e
           | Inr m2 \<Rightarrow> adjacency_loop rows m2))"

text \<open>
  \<open>create_adjacency_matrix\<close> returns the matrix; the table comes back too, since the
  call may have normalized it. \<open>self.idrange[1]\<close> needs two entries, and a matrix has no
  negative dimension.
\<close>

definition create_adjacency_matrix :: "dataset \<Rightarrow> py_error + (spmatrix \<times> dataset)" where
  "create_adjacency_matrix d =
     (case ensure_normalized d of
        Inl e \<Rightarrow> Inl e
      | Inr d1 \<Rightarrow>
          (case idrange d1 of
             None \<Rightarrow> Inl TypeError
           | Some rng \<Rightarrow>
               if length rng < 2 then Inl IndexError
               else if rng ! 1 < 0 then Inl ValueError
               else (case adjacency_loop (interactions d1)
                            \<lparr>mrows = nat (rng ! 1), mcols = nat (rng ! 1), cells = Map.empty\<rparr> of
                       Inl e \<Rightarrow> Inl e
                     | Inr m \<Rightarrow> Inr (m, d1))))"

text \<open>\<open>np.asarray(matrix.sum(0)).flatten()\<close>: the sums of the columns.\<close>

definition col_sum :: "spmatrix \<Rightarrow> nat \<Rightarrow> int" where
  "col_sum m b = sum_list (map (\<lambda>a. mat_get m a b) [0 ..< mrows m])"

definition col_sums :: "spmatrix \<Rightarrow> int list" where
  "col_sums m = map (col_sum m) [0 ..< mcols m]"

text \<open>\<open>counts[ids]\<close>, an array indexed by an array of indices.\<close>

fun np_take :: "int list \<Rightarrow> int list \<Rightarrow> py_error + int list" where
  "np_take counts [] = Inr []"
| "np_take counts (i # ids) =
     (case np_index (length counts) i of
        Inl e \<Rightarrow> Inl e
      | Inr k \<Rightarrow> (case np_take counts ids of Inl e \<Rightarrow> Inl e | Inr vs \<Rightarrow> Inr (counts ! k # vs)))"

text \<open>\<open>__remove_low\<close> returns the number of rows it dropped and leaves the others.\<close>

definition remove_low_idx :: "spmatrix \<Rightarrow> int \<Rightarrow> nat \<Rightarrow> dataset \<Rightarrow> py_error + (nat \<times> dataset)" where
  "remove_low_idx matrix lim idx d =
     (case ensure_normalized d of
        Inl e \<Rightarrow> Inl e
      | Inr d1 \<Rightarrow>
          (case np_take (col_sums matrix) (column idx (interactions d1)) of
             Inl e \<Rightarrow> Inl e
           | Inr degrees \<Rightarrow>
               (let cond = map (\<lambda>c. lim < c) degrees
                in Inr (length (filter (\<lambda>b. b = False) cond),
                        d1\<lparr>interactions := map fst (filter snd (zip (interactions d1) cond))\<rparr>))))"

definition remove_low_users :: "spmatrix \<Rightarrow> int \<Rightarrow> dataset \<Rightarrow> py_error + (nat \<times> dataset)" where
  "remove_low_users matrix lim d = remove_low_idx matrix lim 0 d"

definition remove_low_items :: "spmatrix \<Rightarrow> int \<Rightarrow> dataset \<Rightarrow> py_error + (nat \<times> dataset)" where
  "remove_low_items matrix lim d = remove_low_idx matrix lim 1 d"

definition remove_low :: "spmatrix \<Rightarrow> int \<Rightarrow> dataset \<Rightarrow> py_error + (nat \<times> dataset)" where
  "remove_low matrix lim d =
     (case remove_low_users matrix lim d of
        Inl e \<Rightarrow> Inl e
      | Inr (cu, d1) \<Rightarrow>
          (case remove_low_items matrix lim d1 of
             Inl e \<Rightarrow> Inl e
           | Inr (ci, d2) \<Rightarrow> Inr (cu + ci, d2)))"

section \<open>Notions for the statements and the proofs\<close>

subsection \<open>The effect of the two loops on one row\<close>

text \<open>
  Both loops go through the columns of the mapping and change one cell of every row at a
  time. The offset of a column is the sum of the lengths of the mappings before it.
\<close>

definition col_offset :: "int list list \<Rightarrow> nat \<Rightarrow> int" where
  "col_offset mapping j = sum_list (map (\<lambda>colmapping. int (length colmapping)) (take j mapping))"

fun normalize_row :: "int list list \<Rightarrow> nat \<Rightarrow> int \<Rightarrow> int list \<Rightarrow> int list" where
  "normalize_row [] i diff row = row"
| "normalize_row (colmapping # mapping) i diff row =
     normalize_row mapping (Suc i) (diff + int (length colmapping))
       (row[i := find_norm colmapping (row ! i) + diff])"

fun denormalize_row :: "int list list \<Rightarrow> nat \<Rightarrow> int \<Rightarrow> int list \<Rightarrow> int list" where
  "denormalize_row [] i diff row = row"
| "denormalize_row (colmapping # mapping) i diff row =
     denormalize_row mapping (Suc i) (diff + int (length colmapping))
       (row[i := find_denorm colmapping (row ! i - diff)])"

subsection \<open>The rows of a user\<close>

text \<open>The rows that \<open>group_rows\<close> files under a user, among a list of numbered rows.\<close>

definition user_rows :: "(nat \<times> int list) list \<Rightarrow> int \<Rightarrow> nat list" where
  "user_rows es u = map fst (filter (\<lambda>(i, row). 0 < last row \<and> row ! 0 = u) es)"

subsection \<open>Tables for the examples\<close>

text \<open>
  A table of raw ids to try the statements on: users 7 and 3, items 40 and 20.
\<close>

definition raw_table :: dataset where
  "raw_table = \<lparr>interactions = [[7, 40, 1], [3, 40, 1], [7, 20, 0]], ncols = 3, idrange = None\<rparr>"

text \<open>
  A normalized table with a context column: user 0, items 1 and 2, contexts 3 and 4.
\<close>

definition context_table :: dataset where
  "context_table = \<lparr>interactions = [[0, 1, 3, 1], [0, 2, 4, 1]], ncols = 4, idrange = Some [1, 3, 5]\<rparr>"

text \<open>
  A normalized table and a matrix made by hand in which user 0 and item 2 have degree 1
  and user 1 and item 3 have degree 0.
\<close>

definition degree_table :: dataset where
  "degree_table = \<lparr>interactions = [[0, 2, 1], [1, 2, 1], [1, 3, 1]], ncols = 3, idrange = Some [2, 4]\<rparr>"

definition degree_matrix :: spmatrix where
  "degree_matrix = \<lparr>mrows = 4, mcols = 4, cells = [(0, 2) \<mapsto> 1, (2, 0) \<mapsto> 1]\<rparr>"

text \<open>
  A normalized table of three users: user 0 has three rows with a positive label, user 1
  has one, and user 2 has a row with label 0 and then two with a positive label.
\<close>

definition split_table :: dataset where
  "split_table = \<lparr>interactions = [[0, 3, 1], [0, 4, 1], [1, 3, 1], [0, 5, 1], [2, 4, 0], [2, 4, 1], [2, 5, 1]],
                   ncols = 3, idrange = Some [3, 6]\<rparr>"

text \<open>
  A normalized table with a context column (users 0 and 1, items 2 and 3, contexts 4
  and 5) and the pairs that its adjacency matrix stores.
\<close>

definition sampling_table :: dataset where
  "sampling_table = \<lparr>interactions = [[0, 2, 4, 1], [1, 3, 5, 1]], ncols = 4, idrange = Some [2, 4, 6]\<rparr>"

definition sampling_container :: "(int \<times> int) set" where
  "sampling_container = {(0, 2), (2, 0), (1, 3), (3, 1)}"

section \<open>Properties\<close>

subsection \<open>The binary search\<close>

lemma bisect_loop_bounds:
  "lo \<le> hi \<Longrightarrow> lo \<le> bisect_loop a x lo hi \<and> bisect_loop a x lo hi \<le> hi"
proof (induction a x lo hi rule: bisect_loop.induct)
  case (1 a x lo hi)
  show ?case
  proof (cases "lo < hi")
    case True
    then have m: "lo \<le> (lo + hi) div 2" "(lo + hi) div 2 < hi" by auto
    show ?thesis
    proof (cases "a ! ((lo + hi) div 2) < x")
      case lt: True
      from "1.IH"(1) [OF True lt] m have
        "(lo + hi) div 2 + 1 \<le> bisect_loop a x ((lo + hi) div 2 + 1) hi \<and>
         bisect_loop a x ((lo + hi) div 2 + 1) hi \<le> hi" by simp
      with True lt m show ?thesis by (subst bisect_loop.simps, simp)+
    next
      case ge: False
      from "1.IH"(2) [OF True ge] m have
        "lo \<le> bisect_loop a x lo ((lo + hi) div 2) \<and>
         bisect_loop a x lo ((lo + hi) div 2) \<le> (lo + hi) div 2" by simp
      with True ge m show ?thesis by (subst bisect_loop.simps, simp)+
    qed
  next
    case False
    with "1.prems" show ?thesis by (subst bisect_loop.simps, simp)+
  qed
qed

lemma bisect_loop_found:
  "sorted a \<Longrightarrow> distinct a \<Longrightarrow> j < length a \<Longrightarrow> hi \<le> length a \<Longrightarrow> lo \<le> j \<Longrightarrow> j \<le> hi \<Longrightarrow>
   x = a ! j \<Longrightarrow> bisect_loop a x lo hi = j"
proof (induction a x lo hi rule: bisect_loop.induct)
  case (1 a x lo hi)
  show ?case
  proof (cases "lo < hi")
    case True
    let ?mid = "(lo + hi) div 2"
    from True "1.prems" have m: "lo \<le> ?mid" "?mid < hi" "?mid < length a" by auto
    show ?thesis
    proof (cases "a ! ?mid < x")
      case lt: True
      have "?mid < j"
      proof (rule ccontr)
        assume "\<not> ?mid < j"
        then have "j \<le> ?mid" by simp
        with "1.prems" m have "a ! j \<le> a ! ?mid" by (simp add: sorted_nth_mono)
        with lt "1.prems" show False by simp
      qed
      then have "?mid + 1 \<le> j" by simp
      from "1.IH"(1) [OF True lt "1.prems"(1-4) this "1.prems"(6,7)]
      have "bisect_loop a x (?mid + 1) hi = j" .
      with True lt show ?thesis by (subst bisect_loop.simps) simp
    next
      case ge: False
      have "j \<le> ?mid"
      proof (rule ccontr)
        assume "\<not> j \<le> ?mid"
        then have lt: "?mid < j" by simp
        with "1.prems" have "a ! ?mid \<le> a ! j" by (simp add: sorted_nth_mono)
        with ge "1.prems" have "a ! ?mid = a ! j" by simp
        with "1.prems" m have "?mid = j" by (simp add: nth_eq_iff_index_eq)
        with lt show False by simp
      qed
      from m "1.prems" have "?mid \<le> length a" by simp
      from "1.IH"(2) [OF True ge "1.prems"(1-3) this "1.prems"(5) \<open>j \<le> ?mid\<close> "1.prems"(7)]
      have "bisect_loop a x lo ?mid = j" .
      with True ge show ?thesis by (subst bisect_loop.simps) simp
    qed
  next
    case False
    with "1.prems" show ?thesis by (subst bisect_loop.simps) simp
  qed
qed

lemma find_norm_found:
  assumes "sorted a" "distinct a" "j < length a"
  shows "find_norm a (a ! j) = int j"
proof -
  from assms have "bisect_left a (a ! j) = j"
    unfolding bisect_left_def by (intro bisect_loop_found) simp_all
  with assms show ?thesis by (simp add: find_norm_def)
qed

lemma find_norm_cases:
  "find_norm a x = - 1 \<or> (0 \<le> find_norm a x \<and> find_norm a x < int (length a) \<and> a ! nat (find_norm a x) = x)"
  by (simp add: find_norm_def Let_def)

lemma np_unique_props: "sorted (np_unique xs)" "distinct (np_unique xs)" "set (np_unique xs) = set xs"
  by (simp_all add: np_unique_def)

lemma find_norm_member:
  assumes "sorted a" "distinct a" "x \<in> set a"
  shows "0 \<le> find_norm a x \<and> find_norm a x < int (length a) \<and> a ! nat (find_norm a x) = x"
proof -
  from assms(3) obtain j where j: "j < length a" "a ! j = x" by (auto simp: in_set_conv_nth)
  with find_norm_found [OF assms(1,2) j(1)] show ?thesis by simp
qed

lemma find_denorm_find_norm:
  assumes "sorted a" "distinct a" "x \<in> set a"
  shows "find_denorm a (find_norm a x) = x"
  using find_norm_member [OF assms] by (simp add: find_denorm_def)

subsection \<open>The two loops, row by row\<close>

lemma col_offset_0 [simp]: "col_offset mapping 0 = 0"
  by (simp add: col_offset_def)

lemma col_offset_Cons [simp]:
  "col_offset (colmapping # mapping) (Suc j) = int (length colmapping) + col_offset mapping j"
  by (simp add: col_offset_def)

lemma normalize_cols_rows:
  "fst (normalize_cols mapping i diff rows) = map (normalize_row mapping i diff) rows"
proof (induction mapping arbitrary: i diff rows)
  case Nil
  show ?case by (simp add: map_idI)
next
  case (Cons colmapping mapping)
  then show ?case by (simp add: split_beta Let_def o_def)
qed

lemma normalize_cols_rng:
  "snd (normalize_cols mapping i diff rows) =
   map (\<lambda>j. diff + col_offset mapping (Suc j)) [0 ..< length mapping]"
proof (induction mapping arbitrary: i diff rows)
  case Nil
  show ?case by simp
next
  case (Cons colmapping mapping)
  have "[0 ..< length (colmapping # mapping)] = 0 # map Suc [0 ..< length mapping]"
    by (simp add: upt_conv_Cons map_Suc_upt del: upt_Suc)
  then show ?case
    by (simp add: split_beta Let_def Cons.IH o_def add.assoc del: upt_Suc)
qed

lemma denormalize_cols_rows:
  "denormalize_cols mapping i diff rows = map (denormalize_row mapping i diff) rows"
proof (induction mapping arbitrary: i diff rows)
  case Nil
  show ?case by (simp add: map_idI)
next
  case (Cons colmapping mapping)
  then show ?case by (simp add: o_def)
qed

lemma normalize_row_length [simp]: "length (normalize_row mapping i diff row) = length row"
  by (induction mapping arbitrary: i diff row) simp_all

lemma denormalize_row_length [simp]: "length (denormalize_row mapping i diff row) = length row"
  by (induction mapping arbitrary: i diff row) simp_all

lemma normalize_row_nth:
  "k < length row \<Longrightarrow>
   normalize_row mapping i diff row ! k =
     (if i \<le> k \<and> k < i + length mapping
      then find_norm (mapping ! (k - i)) (row ! k) + (diff + col_offset mapping (k - i))
      else row ! k)"
proof (induction mapping arbitrary: i diff row)
  case Nil
  show ?case by simp
next
  case (Cons colmapping mapping)
  let ?row = "row[i := find_norm colmapping (row ! i) + diff]"
  from Cons.prems have k: "k < length ?row" by simp
  show ?case
  proof (cases "k = i")
    case True
    with Cons.IH [OF k, of "Suc i" "diff + int (length colmapping)"] Cons.prems
    show ?thesis by simp
  next
    case False
    show ?thesis
    proof (cases "i < k")
      case True
      then obtain j where j: "k - i = Suc j" "k - Suc i = j" by (cases "k - i") auto
      with Cons.IH [OF k, of "Suc i" "diff + int (length colmapping)"] True False
      show ?thesis by (auto simp: add.assoc)
    next
      case lt: False
      with Cons.IH [OF k, of "Suc i" "diff + int (length colmapping)"] False
      show ?thesis by simp
    qed
  qed
qed

lemma denormalize_row_nth:
  "k < length row \<Longrightarrow>
   denormalize_row mapping i diff row ! k =
     (if i \<le> k \<and> k < i + length mapping
      then find_denorm (mapping ! (k - i)) (row ! k - (diff + col_offset mapping (k - i)))
      else row ! k)"
proof (induction mapping arbitrary: i diff row)
  case Nil
  show ?case by simp
next
  case (Cons colmapping mapping)
  let ?row = "row[i := find_denorm colmapping (row ! i - diff)]"
  from Cons.prems have k: "k < length ?row" by simp
  show ?case
  proof (cases "k = i")
    case True
    with Cons.IH [OF k, of "Suc i" "diff + int (length colmapping)"] Cons.prems
    show ?thesis by simp
  next
    case False
    show ?thesis
    proof (cases "i < k")
      case True
      then obtain j where j: "k - i = Suc j" "k - Suc i = j" by (cases "k - i") auto
      with Cons.IH [OF k, of "Suc i" "diff + int (length colmapping)"] True False
      show ?thesis by (auto simp: add.assoc)
    next
      case lt: False
      with Cons.IH [OF k, of "Suc i" "diff + int (length colmapping)"] False
      show ?thesis by simp
    qed
  qed
qed

subsection \<open>Normalization with the mapping derived from the table\<close>

lemma col_offset_Suc:
  "k < length mapping \<Longrightarrow> col_offset mapping (Suc k) = col_offset mapping k + int (length (mapping ! k))"
  by (simp add: col_offset_def take_Suc_conv_app_nth)

lemma col_offset_nonneg: "0 \<le> col_offset mapping k"
  unfolding col_offset_def by (rule sum_list_nonneg) auto

lemma col_offset_mono: "j \<le> k \<Longrightarrow> col_offset mapping j \<le> col_offset mapping k"
proof (induction mapping arbitrary: j k)
  case Nil
  show ?case by (simp add: col_offset_def)
next
  case (Cons colmapping mapping)
  show ?case
  proof (cases j)
    case 0
    with col_offset_nonneg [of "colmapping # mapping" k] show ?thesis by simp
  next
    case (Suc j')
    with Cons.prems obtain k' where "k = Suc k'" "j' \<le> k'" by (cases k) auto
    with Suc Cons.IH [of j' k'] show ?thesis by simp
  qed
qed

lemma derive_mapping_length [simp]: "length (derive_mapping d) = ncols d - 1"
  by (simp add: derive_mapping_def)

lemma derive_mapping_nth:
  "k < ncols d - 1 \<Longrightarrow> derive_mapping d ! k = np_unique (column k (interactions d))"
  by (simp add: derive_mapping_def)

lemma derive_mapping_member:
  "row \<in> set (interactions d) \<Longrightarrow> k < ncols d - 1 \<Longrightarrow> row ! k \<in> set (derive_mapping d ! k)"
  by (simp add: derive_mapping_nth np_unique_props column_def)

lemma wf_dataset_row: "wf_dataset d \<Longrightarrow> row \<in> set (interactions d) \<Longrightarrow> length row = ncols d"
  by (simp add: wf_dataset_def list_all_iff)

text \<open>A cell of an entity column after normalization with the derived mapping.\<close>

lemma normalize_row_derived:
  assumes "wf_dataset d" "row \<in> set (interactions d)" "k < ncols d - 1"
  shows "col_offset (derive_mapping d) k \<le> normalize_row (derive_mapping d) 0 0 row ! k"
    and "normalize_row (derive_mapping d) 0 0 row ! k < col_offset (derive_mapping d) (Suc k)"
    and "normalize_row (derive_mapping d) 0 0 row ! k - col_offset (derive_mapping d) k
         = find_norm (derive_mapping d ! k) (row ! k)"
    and "find_denorm (derive_mapping d ! k)
           (normalize_row (derive_mapping d) 0 0 row ! k - col_offset (derive_mapping d) k) = row ! k"
proof -
  let ?m = "derive_mapping d"
  let ?f = "find_norm (?m ! k) (row ! k)"
  from wf_dataset_row [OF assms(1,2)] assms(3) have len: "k < length row" by simp
  from assms(3) have nth: "normalize_row ?m 0 0 row ! k = ?f + col_offset ?m k"
    by (simp add: normalize_row_nth [OF len])
  have sd: "sorted (?m ! k)" "distinct (?m ! k)"
    using assms(3) by (simp_all add: derive_mapping_nth np_unique_props)
  have mem: "row ! k \<in> set (?m ! k)" by (rule derive_mapping_member [OF assms(2,3)])
  from find_norm_member [OF sd mem] have lo: "0 \<le> ?f" and hi: "?f < int (length (?m ! k))"
    by blast+
  from assms(3) have suc: "col_offset ?m (Suc k) = col_offset ?m k + int (length (?m ! k))"
    by (simp add: col_offset_Suc)
  from nth lo show "col_offset ?m k \<le> normalize_row ?m 0 0 row ! k" by linarith
  from nth hi suc show "normalize_row ?m 0 0 row ! k < col_offset ?m (Suc k)" by linarith
  from nth show diff: "normalize_row ?m 0 0 row ! k - col_offset ?m k = ?f" by linarith
  show "find_denorm (?m ! k) (normalize_row ?m 0 0 row ! k - col_offset ?m k) = row ! k"
    unfolding diff by (rule find_denorm_find_norm [OF sd mem])
qed

lemma normalize_row_label:
  assumes "wf_dataset d" "row \<in> set (interactions d)"
  shows "normalize_row (derive_mapping d) 0 0 row ! (ncols d - 1) = row ! (ncols d - 1)"
proof -
  from assms(1) have "2 < ncols d" by (simp add: wf_dataset_def)
  with wf_dataset_row [OF assms] have "ncols d - 1 < length row" by simp
  then have "normalize_row (derive_mapping d) 0 0 row ! (ncols d - 1) =
      (if 0 \<le> ncols d - 1 \<and> ncols d - 1 < 0 + length (derive_mapping d)
       then find_norm (derive_mapping d ! (ncols d - 1 - 0)) (row ! (ncols d - 1)) +
            (0 + col_offset (derive_mapping d) (ncols d - 1 - 0))
       else row ! (ncols d - 1))"
    by (rule normalize_row_nth)
  then show ?thesis by simp
qed

text \<open>Without a mapping of the caller's, no row is removed, whatever \<open>remove_missing\<close> is.\<close>

lemma normalize_rows_kept:
  assumes "wf_dataset d"
  shows "filter (\<lambda>row. list_all (\<lambda>v. 0 \<le> v) (take 2 row))
           (map (normalize_row (derive_mapping d) 0 0) (interactions d))
         = map (normalize_row (derive_mapping d) 0 0) (interactions d)"
proof -
  let ?m = "derive_mapping d"
  have "list_all (\<lambda>v. 0 \<le> v) (take 2 nrow)"
    if "nrow \<in> set (map (normalize_row ?m 0 0) (interactions d))" for nrow
  proof -
    from that obtain row where row: "row \<in> set (interactions d)"
      and nrow: "nrow = normalize_row ?m 0 0 row" by auto
    from assms have c: "2 < ncols d" by (simp add: wf_dataset_def)
    with wf_dataset_row [OF assms row] nrow have len: "2 < length nrow" by simp
    from c have k: "0 < ncols d - 1" "1 < ncols d - 1" by simp_all
    have "0 \<le> nrow ! 0"
      using normalize_row_derived(1) [OF assms row k(1)] col_offset_nonneg [of ?m 0]
      unfolding nrow by linarith
    moreover have "0 \<le> nrow ! 1"
      using normalize_row_derived(1) [OF assms row k(2)] col_offset_nonneg [of ?m 1]
      unfolding nrow by linarith
    ultimately have "0 \<le> take 2 nrow ! n" if "n < 2" for n
      using that len by (cases n) simp_all
    with len show ?thesis by (simp add: list_all_length)
  qed
  then show ?thesis by (intro filter_True ballI)
qed

lemma normalize_ids_derived:
  assumes "wf_dataset d"
  shows "normalize_ids None remove_missing d =
         Inr (derive_mapping d,
              d\<lparr>interactions := map (normalize_row (derive_mapping d) 0 0) (interactions d),
                idrange := Some (map (\<lambda>j. col_offset (derive_mapping d) (Suc j)) [0 ..< ncols d - 1])\<rparr>)"
proof -
  let ?m = "derive_mapping d"
  have nc: "normalize_cols ?m 0 0 (interactions d) =
      (map (normalize_row ?m 0 0) (interactions d),
       map (\<lambda>j. col_offset ?m (Suc j)) [0 ..< ncols d - 1])"
    by (simp add: prod_eq_iff normalize_cols_rows normalize_cols_rng)
  show ?thesis
    by (simp add: normalize_ids_def nc Let_def remove_negative_ids_def
          normalize_rows_kept [OF assms])
qed

subsection \<open>The sub-ranges of the columns\<close>

lemma sub_range_derived:
  assumes "i < n"
  shows "sub_range (map (\<lambda>j. col_offset mapping (Suc j)) [0 ..< n]) i
         = {col_offset mapping i ..< col_offset mapping (Suc i)}"
proof (cases i)
  case 0
  with assms show ?thesis by (simp add: sub_range_def)
next
  case (Suc i')
  with assms have "i' < n" by simp
  with Suc assms show ?thesis by (simp add: sub_range_def)
qed

lemma sub_range_derived_disjoint:
  assumes "i < j" "j < n"
  shows "sub_range (map (\<lambda>j. col_offset mapping (Suc j)) [0 ..< n]) i \<inter>
         sub_range (map (\<lambda>j. col_offset mapping (Suc j)) [0 ..< n]) j = {}"
proof -
  from assms have "i < n" by simp
  moreover from assms have "col_offset mapping (Suc i) \<le> col_offset mapping j"
    by (intro col_offset_mono) simp
  ultimately show ?thesis
    using assms(2) by (auto simp: sub_range_derived)
qed

lemma denormalize_normalize_row:
  assumes "wf_dataset d" "row \<in> set (interactions d)"
  shows "denormalize_row (derive_mapping d) 0 0 (normalize_row (derive_mapping d) 0 0 row) = row"
proof (rule nth_equalityI)
  show "length (denormalize_row (derive_mapping d) 0 0 (normalize_row (derive_mapping d) 0 0 row))
        = length row" by simp
next
  let ?m = "derive_mapping d"
  let ?nrow = "normalize_row ?m 0 0 row"
  fix k assume "k < length (denormalize_row ?m 0 0 ?nrow)"
  then have k: "k < length ?nrow" "k < length row" by simp_all
  have len: "length row = ncols d" by (rule wf_dataset_row [OF assms])
  show "denormalize_row ?m 0 0 ?nrow ! k = row ! k"
  proof (cases "k < ncols d - 1")
    case True
    with denormalize_row_nth [OF k(1), of ?m 0 0]
    have "denormalize_row ?m 0 0 ?nrow ! k = find_denorm (?m ! k) (?nrow ! k - col_offset ?m k)"
      by simp
    with normalize_row_derived(4) [OF assms True] show ?thesis by simp
  next
    case False
    with k len have eq: "k = ncols d - 1" by simp
    from False denormalize_row_nth [OF k(1), of ?m 0 0]
    have "denormalize_row ?m 0 0 ?nrow ! k = ?nrow ! k" by simp
    with normalize_row_label [OF assms] eq show ?thesis by simp
  qed
qed

lemma wf_raw_table: "wf_dataset raw_table"
  by (simp add: wf_dataset_def raw_table_def)



text \<open>
  Claim C2. After \<open>normalize_ids()\<close> every cell of an entity column lies in the
  sub-range of its column, hence in \<open>[0, idrange[last])\<close>, and the sub-ranges of two
  different columns have no id in common.
\<close>

theorem normalize_ids_sub_ranges:
  assumes "wf_dataset d"
  shows "\<exists>m d' rng. normalize_ids None True d = Inr (m, d') \<and> idrange d' = Some rng \<and>
           length rng = ncols d - 1 \<and>
           (\<forall>row \<in> set (interactions d'). \<forall>i < length rng.
              row ! i \<in> sub_range rng i \<and> 0 \<le> row ! i \<and> row ! i < last rng) \<and>
           (\<forall>i j. i < j \<longrightarrow> j < length rng \<longrightarrow> sub_range rng i \<inter> sub_range rng j = {})"
proof -
  let ?m = "derive_mapping d"
  let ?n = "ncols d - 1"
  let ?rng = "map (\<lambda>j. col_offset ?m (Suc j)) [0 ..< ?n]"
  let ?rows = "map (normalize_row ?m 0 0) (interactions d)"
  from assms have n: "0 < ?n" by (simp add: wf_dataset_def)
  then have last: "last ?rng = col_offset ?m ?n"
    by (cases ?n) (simp_all add: last_map del: upt_Suc)
  have cells: "nrow ! i \<in> sub_range ?rng i \<and> 0 \<le> nrow ! i \<and> nrow ! i < last ?rng"
    if "nrow \<in> set ?rows" "i < ?n" for nrow i
  proof -
    from that(1) obtain row where row: "row \<in> set (interactions d)"
      and nrow: "nrow = normalize_row ?m 0 0 row" by auto
    note b = normalize_row_derived(1,2) [OF assms row that(2)]
    from that(2) have "col_offset ?m (Suc i) \<le> col_offset ?m ?n"
      by (intro col_offset_mono) simp
    with b col_offset_nonneg [of ?m i] that(2) show ?thesis
      unfolding nrow last by (simp add: sub_range_derived)
  qed
  have disj: "sub_range ?rng i \<inter> sub_range ?rng j = {}" if "i < j" "j < ?n" for i j
    using that by (rule sub_range_derived_disjoint)
  from cells disj show ?thesis
    by (simp add: normalize_ids_derived [OF assms])
qed

theorem normalize_ids_sub_ranges_witness:
  "wf_dataset raw_table \<and>
   (\<exists>m d' rng. normalize_ids None True raw_table = Inr (m, d') \<and> idrange d' = Some rng \<and>
      length rng = ncols raw_table - 1 \<and>
      (\<forall>row \<in> set (interactions d'). \<forall>i < length rng.
         row ! i \<in> sub_range rng i \<and> 0 \<le> row ! i \<and> row ! i < last rng) \<and>
      (\<forall>i j. i < j \<longrightarrow> j < length rng \<longrightarrow> sub_range rng i \<inter> sub_range rng j = {}))"
  using normalize_ids_sub_ranges [OF wf_raw_table] wf_raw_table by (rule conjI [rotated])

text \<open>
  Claim C3. \<open>normalize_ids()\<close> followed by \<open>denormalize_ids\<close> with the mapping it returned
  and \<open>remove_missing=False\<close> gives back the table it started from, every entity cell
  and every label, with \<open>idrange\<close> cleared.
\<close>

theorem normalize_denormalize_roundtrip:
  assumes "wf_dataset d"
  shows "\<exists>m d1. normalize_ids None True d = Inr (m, d1) \<and>
           denormalize_ids m False d1 = Inr (d\<lparr>idrange := None\<rparr>)"
proof -
  let ?m = "derive_mapping d"
  have "map (denormalize_row ?m 0 0) (map (normalize_row ?m 0 0) (interactions d)) = interactions d"
    by (simp add: o_def denormalize_normalize_row [OF assms] map_idI)
  moreover from assms have "length ?m + 1 = ncols d" by (simp add: wf_dataset_def)
  ultimately show ?thesis
    by (simp add: normalize_ids_derived [OF assms] denormalize_ids_def denormalize_cols_rows)
qed

theorem normalize_denormalize_roundtrip_witness:
  "wf_dataset raw_table \<and>
   (\<exists>m d1. normalize_ids None True raw_table = Inr (m, d1) \<and>
      denormalize_ids m False d1 = Inr (raw_table\<lparr>idrange := None\<rparr>))"
  using normalize_denormalize_roundtrip [OF wf_raw_table] wf_raw_table by (rule conjI [rotated])

subsection \<open>A raw id that the caller's mapping does not have\<close>

text \<open>
  Claim C6 says that a raw id missing from the mapping of its column becomes -1 in the
  cell. The loop stores \<open>find(colmapping, row[i]) + diff\<close>, so that past the first
  column the sentinel is shifted by the width of the columns before. With the mapping
  \<open>[[5], [9]]\<close> the item 7 of the row (5, 7, 1) is missing: its cell becomes \<open>-1 + 1 = 0\<close>,
  the id of user 5, and the row stays in the table although \<open>remove_missing\<close> is set.
\<close>

theorem normalize_ids_missing_item:
  "normalize_ids (Some [[5], [9]]) True
     \<lparr>interactions = [[5, 7, 1]], ncols = 3, idrange = None\<rparr>
   = Inr ([[5], [9]], \<lparr>interactions = [[0, 0, 1]], ncols = 3, idrange = Some [1, 2]\<rparr>)"
  by code_simp

subsection \<open>The adjacency matrix\<close>

lemma id_normalizedD:
  assumes "id_normalized d" "idrange d = Some rng"
  shows "wf_dataset d" "length rng + 1 = ncols d" "sorted (0 # rng)"
    and "row \<in> set (interactions d) \<Longrightarrow> i < length rng \<Longrightarrow> row ! i \<in> sub_range rng i"
  using assms by (auto simp: id_normalized_def list_all_iff)

lemma normalize_ids_id_normalized:
  assumes "wf_dataset d" "normalize_ids None remove_missing d = Inr (m, d')"
  shows "id_normalized d'"
proof -
  let ?m = "derive_mapping d"
  let ?n = "ncols d - 1"
  let ?rng = "map (\<lambda>j. col_offset ?m (Suc j)) [0 ..< ?n]"
  from assms have d': "d' = d\<lparr>interactions := map (normalize_row ?m 0 0) (interactions d),
                               idrange := Some ?rng\<rparr>"
    by (auto simp: normalize_ids_derived)
  from assms(1) have n: "2 < ncols d" by (simp add: wf_dataset_def)
  have wf: "wf_dataset d'"
    using assms(1) unfolding d' by (simp add: wf_dataset_def list_all_iff)
  have "sorted_wrt (\<lambda>i j. col_offset ?m (Suc i) \<le> col_offset ?m (Suc j)) [0 ..< ?n]"
    by (rule sorted_wrt_mono_rel [of _ "(<)"]) (simp_all add: col_offset_mono)
  then have srt: "sorted (0 # ?rng)"
    by (simp add: sorted_map col_offset_nonneg del: upt_Suc)
  have "nrow ! i \<in> sub_range ?rng i"
    if "nrow \<in> set (map (normalize_row ?m 0 0) (interactions d))" "i < ?n" for nrow i
  proof -
    from that(1) obtain row where row: "row \<in> set (interactions d)"
      and nrow: "nrow = normalize_row ?m 0 0 row" by auto
    from normalize_row_derived(1,2) [OF assms(1) row that(2)] that(2) show ?thesis
      unfolding nrow by (simp add: sub_range_derived)
  qed
  with wf n srt show ?thesis
    unfolding id_normalized_def d' by (simp add: list_all_iff del: upt_Suc)
qed

lemma ensure_normalized_id_normalized:
  "id_normalized d \<Longrightarrow> ensure_normalized d = Inr d"
  by (auto simp: ensure_normalized_def id_normalized_def split: option.splits)

lemma np_index_in_range: "0 \<le> i \<Longrightarrow> i < int n \<Longrightarrow> np_index n i = Inr (nat i)"
  by (simp add: np_index_def)

lemma map_upd_twice_apply:
  "(f(k1 \<mapsto> v, k2 \<mapsto> v)) k = (if k = k1 \<or> k = k2 then Some v else f k)"
  by (simp only: fun_upd_apply split: if_split) blast

lemma int_pair_eq:
  "0 \<le> x \<Longrightarrow> 0 \<le> y \<Longrightarrow> ((int a, int b) = (x, y)) = ((a, b) = (nat x, nat y))"
  by auto

text \<open>The loop stores a 1 at the two cells of every row and leaves the others.\<close>

lemma adjacency_loop_cells:
  assumes "list_all (\<lambda>row. 0 \<le> row ! 0 \<and> row ! 0 < int n \<and> 0 \<le> row ! 1 \<and> row ! 1 < int n) rows"
    and "mrows m0 = n" "mcols m0 = n"
  shows "\<exists>m. adjacency_loop rows m0 = Inr m \<and> mrows m = n \<and> mcols m = n \<and>
           (\<forall>a b. cells m (a, b) =
              (if list_ex (\<lambda>row. (int a, int b) = (row ! 0, row ! 1) \<or> (int a, int b) = (row ! 1, row ! 0)) rows
               then Some 1 else cells m0 (a, b)))"
  using assms
proof (induction rows arbitrary: m0)
  case Nil
  then show ?case by simp
next
  case (Cons row rows)
  let ?u = "nat (row ! 0)" and ?i = "nat (row ! 1)"
  let ?m2 = "m0\<lparr>cells := (cells m0)((?u, ?i) \<mapsto> 1, (?i, ?u) \<mapsto> 1)\<rparr>"
  from Cons.prems have r: "0 \<le> row ! 0" "row ! 0 < int n" "0 \<le> row ! 1" "row ! 1 < int n"
    and rest: "list_all (\<lambda>row. 0 \<le> row ! 0 \<and> row ! 0 < int n \<and> 0 \<le> row ! 1 \<and> row ! 1 < int n) rows"
    by simp_all
  from r have idx: "np_index n (row ! 0) = Inr ?u" "np_index n (row ! 1) = Inr ?i"
    by (simp_all add: np_index_in_range)
  have s1: "dok_set_one m0 (row ! 0) (row ! 1) = Inr (m0\<lparr>cells := (cells m0)((?u, ?i) \<mapsto> 1)\<rparr>)"
    unfolding dok_set_one_def by (simp add: Cons.prems(2,3) idx del: One_nat_def)
  have s2: "dok_set_one (m0\<lparr>cells := (cells m0)((?u, ?i) \<mapsto> 1)\<rparr>) (row ! 1) (row ! 0) = Inr ?m2"
    unfolding dok_set_one_def by (simp add: Cons.prems(2,3) idx del: One_nat_def)
  have step: "adjacency_loop (row # rows) m0 = adjacency_loop rows ?m2"
    by (simp add: s1 s2 del: One_nat_def)
  from Cons.prems(2,3) have "mrows ?m2 = n" "mcols ?m2 = n" by simp_all
  from Cons.IH [OF rest this] obtain m where m: "adjacency_loop rows ?m2 = Inr m"
    "mrows m = n" "mcols m = n"
    and c: "\<And>a b. cells m (a, b) =
              (if list_ex (\<lambda>row. (int a, int b) = (row ! 0, row ! 1) \<or> (int a, int b) = (row ! 1, row ! 0)) rows
               then Some 1 else cells ?m2 (a, b))" by blast
  have cm: "cells m (a, b) =
          (if list_ex (\<lambda>row. (int a, int b) = (row ! 0, row ! 1) \<or> (int a, int b) = (row ! 1, row ! 0)) (row # rows)
           then Some 1 else cells m0 (a, b))" for a b
  proof -
    have e1: "((int a, int b) = (row ! 0, row ! 1)) = ((a, b) = (?u, ?i))"
      using r(1,3) by (rule int_pair_eq)
    have e2: "((int a, int b) = (row ! 1, row ! 0)) = ((a, b) = (?i, ?u))"
      using r(3,1) by (rule int_pair_eq)
    have "cells ?m2 = (cells m0)((?u, ?i) \<mapsto> 1, (?i, ?u) \<mapsto> 1)"
      by simp
    then have "cells ?m2 (a, b) =
        (if (a, b) = (?u, ?i) \<or> (a, b) = (?i, ?u) then Some 1 else cells m0 (a, b))"
      by (simp only: map_upd_twice_apply)
    then show ?thesis
      unfolding c list_ex_Cons_iff e1 e2 by (simp only: split: if_split) blast
  qed
  have "adjacency_loop (row # rows) m0 = Inr m" unfolding step by (rule m(1))
  with m(2,3) cm show ?case by blast
qed

lemma normalized_context_table: "id_normalized context_table"
  by (simp add: id_normalized_def wf_dataset_def context_table_def sub_range_def)

text \<open>
  What the loop of \<open>create_adjacency_matrix\<close> stores on a normalized table: a 1 at
  (user, item) and at (item, user) for the first two columns of every row and nothing
  else, so that the matrix is symmetric. The matrix is square, with as many rows as
  \<open>self.idrange[1]\<close> says, and the table is left as it was.
\<close>

lemma create_adjacency_matrix_symmetric:
  assumes "id_normalized d" "idrange d = Some rng"
  shows "\<exists>m. create_adjacency_matrix d = Inr (m, d) \<and>
           mrows m = nat (rng ! 1) \<and> mcols m = nat (rng ! 1) \<and>
           (\<forall>a b. mat_get m a b =
              (if \<exists>row \<in> set (interactions d).
                    (int a, int b) = (row ! 0, row ! 1) \<or> (int a, int b) = (row ! 1, row ! 0)
               then 1 else 0)) \<and>
           (\<forall>a b. mat_get m a b = mat_get m b a)"
proof -
  note n = id_normalizedD [OF assms]
  from n(1,2) have len: "2 \<le> length rng" by (simp add: wf_dataset_def)
  then have rng1: "0 \<le> rng ! 1"
    using n(3) by (cases rng; cases "tl rng") auto
  let ?n = "nat (rng ! 1)"
  let ?m0 = "\<lparr>mrows = ?n, mcols = ?n, cells = Map.empty\<rparr>"
  have "0 \<le> row ! 0 \<and> row ! 0 < int ?n \<and> 0 \<le> row ! 1 \<and> row ! 1 < int ?n"
    if "row \<in> set (interactions d)" for row
  proof -
    from len have "0 < length rng" "1 < length rng" by linarith+
    from n(4) [OF that this(1)] n(4) [OF that this(2)]
    show ?thesis by (simp add: sub_range_def)
  qed
  then have "list_all (\<lambda>row. 0 \<le> row ! 0 \<and> row ! 0 < int ?n \<and> 0 \<le> row ! 1 \<and> row ! 1 < int ?n)
               (interactions d)"
    by (simp add: list_all_iff)
  from adjacency_loop_cells [OF this, of ?m0] obtain m where
    m: "adjacency_loop (interactions d) ?m0 = Inr m" "mrows m = ?n" "mcols m = ?n"
    and c: "\<And>a b. cells m (a, b) =
              (if list_ex (\<lambda>row. (int a, int b) = (row ! 0, row ! 1) \<or> (int a, int b) = (row ! 1, row ! 0))
                    (interactions d)
               then Some 1 else None)"
    by auto
  have g: "mat_get m a b =
      (if \<exists>row \<in> set (interactions d).
            (int a, int b) = (row ! 0, row ! 1) \<or> (int a, int b) = (row ! 1, row ! 0)
       then 1 else 0)" for a b
    unfolding mat_get_def c list_ex_iff by (simp only: option.case split: if_split) blast
  have sym: "mat_get m a b = mat_get m b a" for a b
    unfolding g by (simp only: prod.inject split: if_split) blast
  from len rng1 have "create_adjacency_matrix d = Inr (m, d)"
    by (simp add: create_adjacency_matrix_def ensure_normalized_id_normalized [OF assms(1)]
        assms(2) m(1) del: One_nat_def)
  with m(2,3) g sym show ?thesis by blast
qed

lemma create_adjacency_matrix_symmetric_example:
  "id_normalized context_table \<and> idrange context_table = Some [1, 3, 5] \<and>
   (\<exists>m. create_adjacency_matrix context_table = Inr (m, context_table) \<and>
      mrows m = 3 \<and> mcols m = 3 \<and>
      mat_get m 0 1 = 1 \<and> mat_get m 1 0 = 1 \<and> mat_get m 0 2 = 1 \<and> mat_get m 2 0 = 1 \<and>
      mat_get m 1 2 = 0 \<and> mat_get m 0 0 = 0)"
proof -
  have r: "idrange context_table = Some [1, 3, 5]" by (simp add: context_table_def)
  from create_adjacency_matrix_symmetric [OF normalized_context_table r]
  obtain m where m: "create_adjacency_matrix context_table = Inr (m, context_table)"
    "mrows m = nat ([1, 3, 5] ! 1)" "mcols m = nat ([1, 3, 5] ! 1)"
    and g: "\<And>a b. mat_get m a b =
      (if \<exists>row \<in> set (interactions context_table).
            (int a, int b) = (row ! 0, row ! 1) \<or> (int a, int b) = (row ! 1, row ! 0)
       then 1 else 0)" by blast
  have "mat_get m 0 1 = 1" "mat_get m 1 0 = 1" "mat_get m 0 2 = 1" "mat_get m 2 0 = 1"
    "mat_get m 1 2 = 0" "mat_get m 0 0 = 0"
    unfolding g by (simp_all add: context_table_def)
  with m normalized_context_table r show ?thesis by auto
qed

text \<open>
  Claim C5 says that the matrix is square of size \<open>idrange[last]\<close>, the whole id space of
  the table. The code takes \<open>size = self.idrange[1]\<close>, the bound of the item column. On
  the normalized table with a context column above, whose last bound is 5, the matrix has
  3 rows and 3 columns, and the context id 3 of the first row of the table is not an index
  of it.
\<close>

theorem create_adjacency_matrix_size_context:
  "id_normalized context_table \<and>
   map_sum id (mrows \<circ> fst) (create_adjacency_matrix context_table) = Inr 3 \<and>
   map_sum id (mcols \<circ> fst) (create_adjacency_matrix context_table) = Inr 3 \<and>
   map_option last (idrange context_table) = Some 5 \<and>
   interactions context_table ! 0 ! 2 = 3 \<and>
   np_index 3 (interactions context_table ! 0 ! 2) = Inl IndexError"
proof -
  have "map_sum id (mrows \<circ> fst) (create_adjacency_matrix context_table) = Inr 3"
    "map_sum id (mcols \<circ> fst) (create_adjacency_matrix context_table) = Inr 3"
    by code_simp+
  moreover have "np_index 3 (interactions context_table ! 0 ! 2) = Inl IndexError"
    by (simp add: context_table_def np_index_def)
  ultimately show ?thesis
    using normalized_context_table by (simp add: context_table_def)
qed

subsection \<open>The filter on degrees\<close>

lemma col_sums_nth: "k < mcols m \<Longrightarrow> col_sums m ! k = col_sum m k"
  by (simp add: col_sums_def)

lemma np_take_in_range:
  "list_all (\<lambda>i. 0 \<le> i \<and> i < int (length counts)) ids \<Longrightarrow>
   np_take counts ids = Inr (map (\<lambda>i. counts ! nat i) ids)"
  by (induction ids) (simp_all add: np_index_in_range)

lemma filter_zip_map: "map fst (filter snd (zip xs (map P xs))) = filter P xs"
  by (induction xs) simp_all

lemma count_False_map:
  "length (filter (\<lambda>b. b = False) (map P xs)) = length (filter (\<lambda>x. \<not> P x) xs)"
  by (induction xs) simp_all

lemma remove_low_idx_filter:
  assumes "ensure_normalized d = Inr d1"
    and "list_all (\<lambda>row. 0 \<le> row ! idx \<and> row ! idx < int (mcols matrix)) (interactions d1)"
  shows "remove_low_idx matrix lim idx d =
         Inr (length (filter (\<lambda>row. \<not> lim < col_sum matrix (nat (row ! idx))) (interactions d1)),
              d1\<lparr>interactions := filter (\<lambda>row. lim < col_sum matrix (nat (row ! idx))) (interactions d1)\<rparr>)"
proof -
  let ?ids = "column idx (interactions d1)"
  from assms(2) have r: "list_all (\<lambda>i. 0 \<le> i \<and> i < int (length (col_sums matrix))) ?ids"
    by (simp add: column_def list_all_iff col_sums_def)
  have "map (\<lambda>i. col_sums matrix ! nat i) ?ids
        = map (\<lambda>row. col_sum matrix (nat (row ! idx))) (interactions d1)"
    using assms(2) by (auto simp: column_def list_all_iff intro!: col_sums_nth)
  with np_take_in_range [OF r]
  have t: "np_take (col_sums matrix) ?ids
           = Inr (map (\<lambda>row. col_sum matrix (nat (row ! idx))) (interactions d1))" by simp
  have c: "map (\<lambda>c. lim < c) (map (\<lambda>row. col_sum matrix (nat (row ! idx))) (interactions d1))
           = map (\<lambda>row. lim < col_sum matrix (nat (row ! idx))) (interactions d1)"
    by simp
  have "remove_low_idx matrix lim idx d =
        (let cond = map (\<lambda>c. lim < c)
                      (map (\<lambda>row. col_sum matrix (nat (row ! idx))) (interactions d1))
         in Inr (length (filter (\<lambda>b. b = False) cond),
                 d1\<lparr>interactions := map fst (filter snd (zip (interactions d1) cond))\<rparr>))"
    unfolding remove_low_idx_def assms(1) sum.case t by (rule refl)
  then show ?thesis
    unfolding Let_def c filter_zip_map count_False_map .
qed

text \<open>
  Claim C9. \<open>remove_low_users(matrix, lim)\<close> keeps exactly the rows whose user has a degree
  above \<open>lim\<close>, the degree of an id being the sum of the column of the matrix at that id,
  and returns the number of rows it dropped; \<open>remove_low_items\<close> does the same with the
  item. The ids of the table, normalized first when it was not, have to be indices of the
  matrix. With \<open>lim = 0\<close> the rows of a user of degree 0 go and those of a user of
  degree 1 stay, as the example after the theorem shows.
\<close>

theorem remove_low_keeps_high_degree:
  assumes "ensure_normalized d = Inr d1"
    and "list_all (\<lambda>row. 0 \<le> row ! 0 \<and> row ! 0 < int (mcols matrix) \<and>
                         0 \<le> row ! 1 \<and> row ! 1 < int (mcols matrix)) (interactions d1)"
  shows "remove_low_users matrix lim d =
           Inr (length (filter (\<lambda>row. \<not> lim < col_sum matrix (nat (row ! 0))) (interactions d1)),
                d1\<lparr>interactions := filter (\<lambda>row. lim < col_sum matrix (nat (row ! 0))) (interactions d1)\<rparr>) \<and>
         remove_low_items matrix lim d =
           Inr (length (filter (\<lambda>row. \<not> lim < col_sum matrix (nat (row ! 1))) (interactions d1)),
                d1\<lparr>interactions := filter (\<lambda>row. lim < col_sum matrix (nat (row ! 1))) (interactions d1)\<rparr>)"
proof -
  from assms(2) have
    u: "list_all (\<lambda>row. 0 \<le> row ! 0 \<and> row ! 0 < int (mcols matrix)) (interactions d1)" and
    i: "list_all (\<lambda>row. 0 \<le> row ! 1 \<and> row ! 1 < int (mcols matrix)) (interactions d1)"
    by (simp_all add: list_all_iff)
  show ?thesis
    unfolding remove_low_users_def remove_low_items_def
    using remove_low_idx_filter [OF assms(1) u] remove_low_idx_filter [OF assms(1) i]
    by (rule conjI)
qed

theorem remove_low_keeps_high_degree_witness:
  "ensure_normalized degree_table = Inr degree_table \<and>
   list_all (\<lambda>row. 0 \<le> row ! 0 \<and> row ! 0 < int (mcols degree_matrix) \<and>
                    0 \<le> row ! 1 \<and> row ! 1 < int (mcols degree_matrix)) (interactions degree_table) \<and>
   col_sum degree_matrix 0 = 1 \<and> col_sum degree_matrix 1 = 0 \<and>
   remove_low_users degree_matrix 0 degree_table =
     Inr (2, degree_table\<lparr>interactions := [[0, 2, 1]]\<rparr>) \<and>
   remove_low_items degree_matrix 0 degree_table =
     Inr (1, degree_table\<lparr>interactions := [[0, 2, 1], [1, 2, 1]]\<rparr>)"
proof -
  have e: "ensure_normalized degree_table = Inr degree_table"
    by (simp add: ensure_normalized_def degree_table_def)
  have r: "list_all (\<lambda>row. 0 \<le> row ! 0 \<and> row ! 0 < int (mcols degree_matrix) \<and>
                    0 \<le> row ! 1 \<and> row ! 1 < int (mcols degree_matrix)) (interactions degree_table)"
    by (simp add: degree_table_def degree_matrix_def)
  have s: "col_sum degree_matrix 0 = 1" "col_sum degree_matrix 1 = 0"
    "col_sum degree_matrix 2 = 1" "col_sum degree_matrix 3 = 0"
    by code_simp+
  have f: "filter (\<lambda>row. (0::int) < col_sum degree_matrix (nat (row ! 0))) (interactions degree_table) = [[0, 2, 1]]"
    "filter (\<lambda>row. \<not> (0::int) < col_sum degree_matrix (nat (row ! 0))) (interactions degree_table) = [[1, 2, 1], [1, 3, 1]]"
    "filter (\<lambda>row. (0::int) < col_sum degree_matrix (nat (row ! 1))) (interactions degree_table) = [[0, 2, 1], [1, 2, 1]]"
    "filter (\<lambda>row. \<not> (0::int) < col_sum degree_matrix (nat (row ! 1))) (interactions degree_table) = [[1, 3, 1]]"
    by (simp_all add: degree_table_def s s [simplified])
  from remove_low_keeps_high_degree [OF e r, of 0] e r s(1,2) show ?thesis
    unfolding f by simp
qed

subsection \<open>The test table\<close>

lemma enumerate_upt: "enumerate 0 xs = map (\<lambda>i. (i, xs ! i)) [0 ..< length xs]"
  by (rule nth_equalityI) (simp_all add: nth_enumerate_eq)

lemma user_rows_Nil [simp]: "user_rows [] u = []"
  by (simp add: user_rows_def)

lemma user_rows_Cons:
  "user_rows ((i, row) # es) u =
     (if 0 < last row \<and> row ! 0 = u then i # user_rows es u else user_rows es u)"
  by (simp add: user_rows_def)

lemma user_rows_enumerate: "user_rows (enumerate 0 rows) u = positive_rows rows u"
  by (simp add: user_rows_def positive_rows_def enumerate_upt filter_map o_def split_def)

lemma map_of_dict_append:
  "map_of (dict_append u i rowsbyuser) =
   (map_of rowsbyuser)(u \<mapsto> (case map_of rowsbyuser u of None \<Rightarrow> [i] | Some userrows \<Rightarrow> userrows @ [i]))"
  by (induction rowsbyuser) (auto simp: fun_eq_iff)

lemma keys_dict_append: "fst ` set (dict_append u i rowsbyuser) = insert u (fst ` set rowsbyuser)"
proof (induction rowsbyuser)
  case Nil
  show ?case by simp
next
  case (Cons kv rowsbyuser)
  obtain k userrows where kv: "kv = (k, userrows)" by (cases kv)
  show ?case
    unfolding kv by (cases "k = u") (simp_all add: Cons.IH insert_commute)
qed

lemma distinct_dict_append:
  "distinct (map fst rowsbyuser) \<Longrightarrow> distinct (map fst (dict_append u i rowsbyuser))"
proof (induction rowsbyuser)
  case Nil
  show ?case by simp
next
  case (Cons kv rowsbyuser)
  obtain k userrows where kv: "kv = (k, userrows)" by (cases kv)
  from Cons.prems show ?case
    unfolding kv by (cases "k = u") (simp_all add: Cons.IH keys_dict_append)
qed

lemma group_rows_map_of:
  "map_of (group_rows es rowsbyuser) u =
     (case map_of rowsbyuser u of
        None \<Rightarrow> (if user_rows es u = [] then None else Some (user_rows es u))
      | Some userrows \<Rightarrow> Some (userrows @ user_rows es u))"
proof (induction es arbitrary: rowsbyuser)
  case Nil
  show ?case by (simp split: option.split)
next
  case (Cons e es)
  obtain i row where e: "e = (i, row)" by (cases e)
  show ?case
  proof (cases "last row \<le> 0")
    case True
    then show ?thesis
      unfolding e by (simp add: Cons.IH user_rows_Cons split: option.split)
  next
    case False
    then show ?thesis
      unfolding e
      by (simp add: Cons.IH map_of_dict_append user_rows_Cons split: option.split)
  qed
qed

lemma group_rows_distinct:
  "distinct (map fst rowsbyuser) \<Longrightarrow> distinct (map fst (group_rows es rowsbyuser))"
proof (induction es arbitrary: rowsbyuser)
  case Nil
  then show ?case by simp
next
  case (Cons e es)
  obtain i row where e: "e = (i, row)" by (cases e)
  from Cons.prems show ?case
    unfolding e by (simp add: Cons.IH distinct_dict_append)
qed

lemma group_rows_entries:
  "(u, userrows) \<in> set (group_rows (enumerate 0 rows) []) \<longleftrightarrow>
   userrows = positive_rows rows u \<and> userrows \<noteq> []"
proof -
  have d: "distinct (map fst (group_rows (enumerate 0 rows) []))"
    by (rule group_rows_distinct) simp
  have "map_of (group_rows (enumerate 0 rows) []) u =
        (if positive_rows rows u = [] then None else Some (positive_rows rows u))"
    by (simp add: group_rows_map_of user_rows_enumerate)
  with map_of_eq_Some_iff [OF d, of u userrows] show ?thesis by (auto split: if_splits)
qed

lemma positive_rows_user: "i \<in> set (positive_rows rows u) \<Longrightarrow> rows ! i ! 0 = u"
  by (simp add: positive_rows_def)

lemma distinct_positive_rows: "distinct (positive_rows rows u)"
  by (simp add: positive_rows_def)

lemma slice_from_last: "xs \<noteq> [] \<Longrightarrow> slice_from (- 1) xs = [last xs]"
proof (induction xs rule: rev_induct)
  case Nil
  then show ?case by simp
next
  case (snoc x xs)
  show ?case by (simp add: slice_from_def)
qed

lemma distinct_concat_owner:
  assumes "distinct (map fst kvs)"
    and "\<And>k v. (k, v) \<in> set kvs \<Longrightarrow> distinct (g (k, v))"
    and "\<And>k v i. (k, v) \<in> set kvs \<Longrightarrow> i \<in> set (g (k, v)) \<Longrightarrow> own i = k"
  shows "distinct (concat (map g kvs))"
  using assms
proof (induction kvs)
  case Nil
  show ?case by simp
next
  case (Cons kv kvs)
  obtain k v where kv: "kv = (k, v)" by (cases kv)
  have d1: "distinct (g (k, v))" by (rule Cons.prems(2)) (simp add: kv)
  have d2: "distinct (concat (map g kvs))"
  proof (rule Cons.IH)
    from Cons.prems(1) show "distinct (map fst kvs)" by simp
    show "distinct (g (k', v'))" if "(k', v') \<in> set kvs" for k' v'
      using that by (intro Cons.prems(2)) simp
    show "own i = k'" if "(k', v') \<in> set kvs" "i \<in> set (g (k', v'))" for k' v' i
      using that by (intro Cons.prems(3) [of k' v']) simp_all
  qed
  have d3: "set (g (k, v)) \<inter> set (concat (map g kvs)) = {}"
  proof (rule ccontr)
    assume "set (g (k, v)) \<inter> set (concat (map g kvs)) \<noteq> {}"
    then obtain i k' v' where i: "i \<in> set (g (k, v))" and kv': "(k', v') \<in> set kvs"
      and i': "i \<in> set (g (k', v'))" by auto
    from Cons.prems(3) [of k v i] i have "own i = k" by (simp add: kv)
    moreover from Cons.prems(3) [of k' v' i] kv' i' have "own i = k'" by simp
    ultimately have "k \<in> fst ` set kvs" using kv' by force
    with Cons.prems(1) show False by (simp add: kv)
  qed
  from d1 d2 d3 show ?case by (simp add: kv)
qed

text \<open>The rows that \<open>extract_test_dataset(1, 1)\<close> picks.\<close>

lemma select_rows_set:
  "set (select_rows 1 1 (group_rows (enumerate 0 rows) [])) =
   {i. \<exists>u. 2 \<le> length (positive_rows rows u) \<and> i = last (positive_rows rows u)}"
proof -
  have "i \<in> set (select_rows 1 1 (group_rows (enumerate 0 rows) [])) \<longleftrightarrow>
        (\<exists>u. 2 \<le> length (positive_rows rows u) \<and> i = last (positive_rows rows u))" for i
  proof -
    have "i \<in> set (select_rows 1 1 (group_rows (enumerate 0 rows) [])) \<longleftrightarrow>
          (\<exists>u userrows. (u, userrows) \<in> set (group_rows (enumerate 0 rows) []) \<and>
             i \<in> set (if int (length userrows) < 1 + 1 then [] else slice_from (- 1) userrows))"
      by (auto simp: select_rows_def)
    also have "\<dots> \<longleftrightarrow> (\<exists>u. positive_rows rows u \<noteq> [] \<and>
             i \<in> set (if int (length (positive_rows rows u)) < 1 + 1 then []
                       else slice_from (- 1) (positive_rows rows u)))"
      unfolding group_rows_entries by blast
    also have "\<dots> \<longleftrightarrow> (\<exists>u. 2 \<le> length (positive_rows rows u) \<and> i = last (positive_rows rows u))"
    proof -
      have "(positive_rows rows u \<noteq> [] \<and>
             i \<in> set (if int (length (positive_rows rows u)) < 1 + 1 then []
                       else slice_from (- 1) (positive_rows rows u))) \<longleftrightarrow>
            (2 \<le> length (positive_rows rows u) \<and> i = last (positive_rows rows u))" for u
        by (cases "positive_rows rows u = []") (auto simp: slice_from_last)
      then show ?thesis by simp
    qed
    finally show ?thesis .
  qed
  then show ?thesis by blast
qed

lemma select_rows_distinct: "distinct (select_rows 1 1 (group_rows (enumerate 0 rows) []))"
  unfolding select_rows_def
proof (rule distinct_concat_owner [where own = "\<lambda>i. rows ! i ! 0"])
  show "distinct (map fst (group_rows (enumerate 0 rows) []))"
    by (rule group_rows_distinct) simp
next
  fix u userrows
  assume "(u, userrows) \<in> set (group_rows (enumerate 0 rows) [])"
  then have ur: "userrows = positive_rows rows u" "userrows \<noteq> []"
    unfolding group_rows_entries by blast+
  then show "distinct (case (u, userrows) of (u, userrows) \<Rightarrow>
      if int (length userrows) < 1 + 1 then [] else slice_from (- 1) userrows)"
    by (simp add: slice_from_last)
  fix i
  assume "i \<in> set (case (u, userrows) of (u, userrows) \<Rightarrow>
      if int (length userrows) < 1 + 1 then [] else slice_from (- 1) userrows)"
  with ur have "i = last userrows" by (simp add: slice_from_last split: if_splits)
  with ur have "i \<in> set (positive_rows rows u)" by simp
  then show "rows ! i ! 0 = u" by (rule positive_rows_user)
qed

lemma np_delete_filter:
  "np_delete xs rows = map (\<lambda>i. xs ! i) (filter (\<lambda>i. i \<notin> set rows) [0 ..< length xs])"
  by (simp add: np_delete_def enumerate_upt filter_map o_def split_def)

lemma ensure_normalized_wf:
  assumes "wf_dataset d"
  shows "\<exists>d1. ensure_normalized d = Inr d1 \<and> wf_dataset d1"
proof (cases "idrange d")
  case None
  with assms show ?thesis
    by (simp add: ensure_normalized_def normalize_ids_derived wf_dataset_def list_all_iff)
next
  case (Some rng)
  with assms show ?thesis by (simp add: ensure_normalized_def)
qed

lemma wf_split_table: "wf_dataset split_table"
  by (simp add: wf_dataset_def split_table_def)

text \<open>
  Claim C8. \<open>extract_test_dataset(1, 1)\<close> normalizes the table if it was not, and returns
  a table made of the last row with a positive label of every user who has at least two
  such rows. These rows leave the table and all the others stay, in their order. Both
  tables have the same \<open>idrange\<close>. A user with exactly two rows with a positive label
  loses the later one and keeps the earlier, and a user with exactly one keeps it.
\<close>

theorem extract_test_dataset_last_positive:
  assumes "wf_dataset d"
  shows "\<exists>d1 test train sel.
           ensure_normalized d = Inr d1 \<and>
           extract_test_dataset 1 1 d = Inr (test, train) \<and>
           idrange test = idrange d1 \<and> idrange train = idrange d1 \<and>
           ncols test = ncols d1 \<and> ncols train = ncols d1 \<and>
           distinct sel \<and>
           set sel = {i. \<exists>u. 2 \<le> length (positive_rows (interactions d1) u) \<and>
                              i = last (positive_rows (interactions d1) u)} \<and>
           interactions test = map (\<lambda>i. interactions d1 ! i) sel \<and>
           interactions train =
             map (\<lambda>i. interactions d1 ! i) (filter (\<lambda>i. i \<notin> set sel) [0 ..< length (interactions d1)]) \<and>
           (\<forall>u i j. positive_rows (interactions d1) u = [i, j] \<longrightarrow> j \<in> set sel \<and> i \<notin> set sel) \<and>
           (\<forall>u i. positive_rows (interactions d1) u = [i] \<longrightarrow> i \<notin> set sel)"
proof -
  from ensure_normalized_wf [OF assms] obtain d1 where
    d1: "ensure_normalized d = Inr d1" and wf: "wf_dataset d1" by blast
  let ?rows = "interactions d1"
  let ?sel = "select_rows 1 1 (group_rows (enumerate 0 ?rows) [])"
  let ?test = "\<lparr>interactions = map (\<lambda>i. ?rows ! i) ?sel, ncols = ncols d1, idrange = idrange d1\<rparr>"
  let ?train = "d1\<lparr>interactions := np_delete ?rows ?sel\<rparr>"
  from wf have c: "2 < ncols d1" by (simp add: wf_dataset_def)
  then have init: "Dataset_init (ncols d1) (map (\<lambda>i. ?rows ! i) ?sel)
      = Inr \<lparr>interactions = map (\<lambda>i. ?rows ! i) ?sel, ncols = ncols d1, idrange = None\<rparr>"
    by (simp add: Dataset_init_def)
  have ex: "extract_test_dataset 1 1 d = Inr (?test, ?train)"
    unfolding extract_test_dataset_def d1 sum.case Let_def init by simp
  note sel = select_rows_set [of ?rows]
  have two: "j \<in> set ?sel \<and> i \<notin> set ?sel" if p: "positive_rows ?rows u = [i, j]" for u i j
  proof
    from p have "2 \<le> length (positive_rows ?rows u) \<and> j = last (positive_rows ?rows u)"
      by simp
    then show "j \<in> set ?sel" unfolding sel by blast
    show "i \<notin> set ?sel"
    proof
      assume "i \<in> set ?sel"
      then obtain u' where u': "2 \<le> length (positive_rows ?rows u')"
        "i = last (positive_rows ?rows u')" unfolding sel by blast
      then have "positive_rows ?rows u' \<noteq> []" by auto
      with u'(2) have "i \<in> set (positive_rows ?rows u')" by simp
      then have "?rows ! i ! 0 = u'" by (rule positive_rows_user)
      moreover from p have "i \<in> set (positive_rows ?rows u)" by simp
      then have "?rows ! i ! 0 = u" by (rule positive_rows_user)
      ultimately have "u' = u" by simp
      with u'(2) p have "i = j" by simp
      with distinct_positive_rows [of ?rows u] p show False by simp
    qed
  qed
  have one: "i \<notin> set ?sel" if p: "positive_rows ?rows u = [i]" for u i
  proof
    assume "i \<in> set ?sel"
    then obtain u' where u': "2 \<le> length (positive_rows ?rows u')"
      "i = last (positive_rows ?rows u')" unfolding sel by blast
    then have "positive_rows ?rows u' \<noteq> []" by auto
    with u'(2) have "i \<in> set (positive_rows ?rows u')" by simp
    then have "?rows ! i ! 0 = u'" by (rule positive_rows_user)
    moreover from p have "i \<in> set (positive_rows ?rows u)" by simp
    then have "?rows ! i ! 0 = u" by (rule positive_rows_user)
    ultimately have "u' = u" by simp
    with u'(1) p show False by simp
  qed
  have "idrange ?test = idrange d1" "idrange ?train = idrange d1"
    "ncols ?test = ncols d1" "ncols ?train = ncols d1"
    "interactions ?test = map (\<lambda>i. ?rows ! i) ?sel"
    "interactions ?train = map (\<lambda>i. ?rows ! i) (filter (\<lambda>i. i \<notin> set ?sel) [0 ..< length ?rows])"
    by (simp_all add: np_delete_filter)
  with d1 ex select_rows_distinct [of ?rows] sel two one show ?thesis by blast
qed

theorem extract_test_dataset_last_positive_witness:
  "wf_dataset split_table \<and>
   (\<exists>d1 test train sel.
      ensure_normalized split_table = Inr d1 \<and>
      extract_test_dataset 1 1 split_table = Inr (test, train) \<and>
      idrange test = idrange d1 \<and> idrange train = idrange d1 \<and>
      ncols test = ncols d1 \<and> ncols train = ncols d1 \<and>
      distinct sel \<and>
      set sel = {i. \<exists>u. 2 \<le> length (positive_rows (interactions d1) u) \<and>
                         i = last (positive_rows (interactions d1) u)} \<and>
      interactions test = map (\<lambda>i. interactions d1 ! i) sel \<and>
      interactions train =
        map (\<lambda>i. interactions d1 ! i) (filter (\<lambda>i. i \<notin> set sel) [0 ..< length (interactions d1)]) \<and>
      (\<forall>u i j. positive_rows (interactions d1) u = [i, j] \<longrightarrow> j \<in> set sel \<and> i \<notin> set sel) \<and>
      (\<forall>u i. positive_rows (interactions d1) u = [i] \<longrightarrow> i \<notin> set sel))"
  using extract_test_dataset_last_positive [OF wf_split_table] wf_split_table
  by (rule conjI [rotated])

text \<open>On the table above the last rows of users 0 and 2 go, and user 1 keeps its row.\<close>

lemma extract_test_dataset_example:
  "extract_test_dataset 1 1 split_table =
   Inr (\<lparr>interactions = [[0, 5, 1], [2, 5, 1]], ncols = 3, idrange = Some [3, 6]\<rparr>,
        \<lparr>interactions = [[0, 3, 1], [0, 4, 1], [1, 3, 1], [2, 4, 0], [2, 4, 1]],
           ncols = 3, idrange = Some [3, 6]\<rparr>)"
  by code_simp

subsection \<open>The negative rows\<close>

text \<open>A draw lies in its range, and every value of the range is drawn from some tape.\<close>

lemma randint_range:
  assumes "low < high"
  shows "low \<le> randint low high t \<and> randint low high t < high"
proof -
  from assms have "0 < high - low" by simp
  from pos_mod_sign [OF this, of "int t"] pos_mod_bound [OF this, of "int t"]
  show ?thesis unfolding randint_def by linarith
qed

lemma randint_onto:
  assumes "low \<le> v" "v < high"
  shows "randint low high (nat (v - low)) = v"
  using assms by (simp add: randint_def)

lemma draw_value_result:
  "draw_value minv maxv cur tape = Returns (v, tape') \<Longrightarrow> v \<noteq> cur \<and> minv \<le> v \<and> v < maxv"
proof (induction tape)
  case Nil
  then show ?case by (simp split: if_splits)
next
  case (Cons t tape)
  show ?case
  proof (cases "maxv \<le> minv")
    case True
    with Cons.prems show ?thesis by simp
  next
    case False
    then have lt: "minv < maxv" by simp
    show ?thesis
    proof (cases "randint minv maxv t = cur")
      case True
      with False Cons.prems have "draw_value minv maxv cur tape = Returns (v, tape')" by simp
      then show ?thesis by (rule Cons.IH)
    next
      case ne: False
      with False Cons.prems have "v = randint minv maxv t" by simp
      with ne randint_range [OF lt, of t] show ?thesis by simp
    qed
  qed
qed

lemma redraw_cols_result:
  assumes "redraw_cols rng row cols nrow tape = Returns (nrow', tape')"
    and "distinct cols" and "\<forall>i \<in> set cols. i < length nrow"
  shows "length nrow' = length nrow \<and>
         (\<forall>i \<in> set cols. nrow' ! i \<noteq> row ! i \<and> rng ! (i - 1) \<le> nrow' ! i \<and> nrow' ! i < rng ! i) \<and>
         (\<forall>i. i \<notin> set cols \<longrightarrow> nrow' ! i = nrow ! i)"
  using assms
proof (induction cols arbitrary: nrow tape)
  case Nil
  then show ?case by simp
next
  case (Cons c cols)
  from Cons.prems(1) obtain v tape1 where
    d: "draw_value (rng ! (c - 1)) (rng ! c) (row ! c) tape = Returns (v, tape1)" and
    r: "redraw_cols rng row cols (nrow[c := v]) tape1 = Returns (nrow', tape')"
    by (auto split: outcome.splits)
  from Cons.prems(2,3) have dc: "distinct cols" "\<forall>i \<in> set cols. i < length (nrow[c := v])"
    and c: "c \<notin> set cols" "c < length nrow" by simp_all
  note ih = Cons.IH [OF r dc]
  from ih c have "nrow' ! c = v" by simp
  with draw_value_result [OF d] have
    "nrow' ! c \<noteq> row ! c \<and> rng ! (c - 1) \<le> nrow' ! c \<and> nrow' ! c < rng ! c" by simp
  moreover from ih have "length nrow' = length nrow" by simp
  moreover from ih have
    "\<forall>i \<in> set cols. nrow' ! i \<noteq> row ! i \<and> rng ! (i - 1) \<le> nrow' ! i \<and> nrow' ! i < rng ! i"
    by blast
  moreover have "\<forall>i. i \<notin> set (c # cols) \<longrightarrow> nrow' ! i = nrow ! i"
  proof (intro allI impI)
    fix i assume "i \<notin> set (c # cols)"
    then have "i \<notin> set cols" "i \<noteq> c" by auto
    with ih show "nrow' ! i = nrow ! i" by simp
  qed
  ultimately show ?case by simp
qed

lemma get_random_negative_row_result:
  assumes "get_random_negative_row (Some rng) row tape = Returns (nrow, tape')" and "rng \<noteq> []"
  shows "length nrow = length rng + 1" "nrow ! 0 = row ! 0" "nrow ! length rng = 0"
    "list_all (\<lambda>i. nrow ! i \<noteq> row ! i \<and> nrow ! i \<in> sub_range rng i) [1 ..< length rng]"
proof -
  let ?init = "(replicate (length rng + 1) (0::int))[0 := row ! 0]"
  from assms have r: "redraw_cols rng row [1 ..< length rng] ?init tape = Returns (nrow, tape')"
    by (simp add: get_random_negative_row_def split: if_splits)
  have "distinct [1 ..< length rng]" "\<forall>i \<in> set [1 ..< length rng]. i < length ?init" by simp_all
  note res = redraw_cols_result [OF r this]
  from res show "length nrow = length rng + 1" by simp
  have "0 \<notin> set [1 ..< length rng]" "length rng \<notin> set [1 ..< length rng]" by simp_all
  with res have "nrow ! 0 = ?init ! 0" "nrow ! length rng = ?init ! length rng" by blast+
  then show "nrow ! 0 = row ! 0" by simp
  from assms(2) have ne: "0 \<noteq> length rng" by simp
  have "?init ! length rng = replicate (length rng + 1) (0::int) ! length rng"
    using ne by (rule nth_list_update_neq)
  also have "\<dots> = 0" by (rule nth_replicate) simp
  finally show "nrow ! length rng = 0"
    using \<open>nrow ! length rng = ?init ! length rng\<close> by simp
  from res have "\<forall>i \<in> set [1 ..< length rng].
      nrow ! i \<noteq> row ! i \<and> rng ! (i - 1) \<le> nrow ! i \<and> nrow ! i < rng ! i" by blast
  then show "list_all (\<lambda>i. nrow ! i \<noteq> row ! i \<and> nrow ! i \<in> sub_range rng i) [1 ..< length rng]"
    by (simp add: list_all_iff sub_range_def)
qed

lemma sample_row_result:
  "sample_row (Some rng) container row tape = Returns (nrow, tape') \<Longrightarrow> rng \<noteq> [] \<Longrightarrow>
   negative_of rng container row nrow"
proof (induction "Some rng" container row tape rule: sample_row.induct)
  case (1 container row tape)
  from "1.prems" obtain nrow1 tape1 where
    g: "get_random_negative_row (Some rng) row tape = Returns (nrow1, tape1)"
    by (subst (asm) sample_row.simps) (auto split: outcome.splits)
  show ?case
  proof (cases "row_comb_in_container nrow1 container")
    case True
    with g "1.prems" have "sample_row (Some rng) container row tape1 = Returns (nrow, tape')"
      by (subst (asm) sample_row.simps) simp
    with "1.hyps" [OF g refl True] "1.prems"(2) show ?thesis by simp
  next
    case False
    with g "1.prems" have "nrow = nrow1"
      by (subst (asm) sample_row.simps) simp
    with False get_random_negative_row_result [OF g "1.prems"(2)] show ?thesis
      by (simp add: negative_of_def)
  qed
qed

lemma sample_rows_result:
  "sample_rows (Some rng) container row k tape = Returns (nrows, tape') \<Longrightarrow> rng \<noteq> [] \<Longrightarrow>
   length nrows = k \<and> list_all (negative_of rng container row) nrows"
proof (induction k arbitrary: tape nrows)
  case 0
  then show ?case by simp
next
  case (Suc k)
  from Suc.prems obtain nrow tape1 nrows1 where
    s: "sample_row (Some rng) container row tape = Returns (nrow, tape1)" and
    r: "sample_rows (Some rng) container row k tape1 = Returns (nrows1, tape')" and
    n: "nrows = nrow # nrows1"
    by (auto split: outcome.splits)
  from Suc.IH [OF r Suc.prems(2)] sample_row_result [OF s Suc.prems(2)] n show ?case by simp
qed

lemma get_random_negative_rows_result:
  assumes "get_random_negative_rows (Some rng) container row num tape = Returns (nrows, tape')"
    and "rng \<noteq> []"
  shows "length nrows = nat num" "list_all (negative_of rng container row) nrows"
proof -
  from assms have "sample_rows (Some rng) container row (nat num) tape = Returns (nrows, tape')"
    by (simp add: get_random_negative_rows_def split: if_splits)
  from sample_rows_result [OF this assms(2)]
  show "length nrows = nat num" "list_all (negative_of rng container row) nrows" by simp_all
qed

lemma nth_splice:
  assumes "a \<le> b" "b \<le> length xs" "length mid = b - a"
  shows "length (take a xs @ mid @ drop b xs) = length xs"
    and "p < a \<Longrightarrow> (take a xs @ mid @ drop b xs) ! p = xs ! p"
    and "a \<le> p \<Longrightarrow> p < b \<Longrightarrow> (take a xs @ mid @ drop b xs) ! p = mid ! (p - a)"
    and "b \<le> p \<Longrightarrow> p < length xs \<Longrightarrow> (take a xs @ mid @ drop b xs) ! p = xs ! p"
proof -
  from assms have la: "length (take a xs) = a" by simp
  from assms show "length (take a xs @ mid @ drop b xs) = length xs" by simp
  show "(take a xs @ mid @ drop b xs) ! p = xs ! p" if "p < a"
    using that la by (simp add: nth_append)
  show "(take a xs @ mid @ drop b xs) ! p = mid ! (p - a)" if "a \<le> p" "p < b"
  proof -
    from that assms(3) have "\<not> p < a" "p - a < length mid" by linarith+
    with la show ?thesis by (simp add: nth_append)
  qed
  show "(take a xs @ mid @ drop b xs) ! p = xs ! p" if "b \<le> p" "p < length xs"
  proof -
    from that assms have "\<not> p < a" "\<not> p - a < length mid" "b + (p - a - length mid) = p"
      by linarith+
    with la assms that show ?thesis by (simp add: nth_append)
  qed
qed

lemma assign_slice_rows:
  assumes "a \<le> b" "b \<le> length data" "length val = b - a" "list_all (\<lambda>row. length row = c) val"
  shows "assign_slice c data a b val = Inr (take a data @ val @ drop b data)"
proof -
  from assms have k: "min b (length data) - a = length val" "a + length val = b" by simp_all
  show ?thesis
    unfolding assign_slice_def Let_def k by (simp add: broadcast_to_def assms(4))
qed

lemma length_np_repeat: "length (np_repeat n rows) = n * length rows"
  by (induction rows) (simp_all add: np_repeat_def)

lemma nth_np_repeat:
  "j < length rows \<Longrightarrow> q < n \<Longrightarrow> np_repeat n rows ! (n * j + q) = rows ! j"
proof (induction rows arbitrary: j)
  case Nil
  then show ?case by simp
next
  case (Cons row rows)
  have unf: "np_repeat n (row # rows) = replicate n row @ np_repeat n rows"
    by (simp add: np_repeat_def)
  show ?case
  proof (cases j)
    case 0
    with Cons.prems show ?thesis by (simp add: unf nth_append)
  next
    case (Suc j')
    with Cons.prems have j': "j' < length rows" by simp
    have "n * j + q = n + (n * j' + q)" by (simp add: Suc)
    then have "np_repeat n (row # rows) ! (n * j + q) = np_repeat n rows ! (n * j' + q)"
      by (simp add: unf nth_append)
    with Cons.IH [OF j' Cons.prems(2)] Suc show ?thesis by simp
  qed
qed

lemma negative_of_length: "negative_of rng container row nrow \<Longrightarrow> length nrow = Suc (length rng)"
  by (simp add: negative_of_def)

text \<open>
  The loop of \<open>add_negative_sampling\<close>, from row \<open>i0\<close> on: it leaves the rows before
  \<open>n * i0\<close> and the first row of every block of \<open>n\<close> rows, and fills the rest of the
  blocks with negatives of the source row.
\<close>

lemma sampling_loop_result:
  assumes "sampling_loop (Some rng) container num c (enumerate i0 rest) data tape = Returns (data', tape')"
    and "0 < num" "rng \<noteq> []" "length rng + 1 = c" "n = nat (num + 1)"
    and "length data = n * (i0 + length rest)"
  shows "length data' = length data \<and>
         (\<forall>p < n * i0. data' ! p = data ! p) \<and>
         (\<forall>j < length rest. data' ! (n * (i0 + j)) = data ! (n * (i0 + j)) \<and>
            (\<forall>q. 1 \<le> q \<and> q < n \<longrightarrow>
               negative_of rng container (rest ! j) (data' ! (n * (i0 + j) + q))))"
  using assms(1,6)
proof (induction rest arbitrary: i0 data tape)
  case Nil
  then show ?case by simp
next
  case (Cons row rest)
  from assms(2,5) have n: "2 \<le> n" "nat num = n - 1" by simp_all
  let ?a = "1 + n * i0" and ?b = "n * (i0 + 1)"
  from Cons.prems(1) obtain nrows tape1 data1 where
    g: "get_random_negative_rows (Some rng) container row num tape = Returns (nrows, tape1)" and
    a: "assign_slice c data ?a ?b nrows = Inr data1" and
    l: "sampling_loop (Some rng) container num c (enumerate (Suc i0) rest) data1 tape1
        = Returns (data', tape')"
    by (auto simp: assms(5) split: outcome.splits sum.splits)
  note nr = get_random_negative_rows_result [OF g assms(3)]
  have b: "?b = n * i0 + n" by (simp add: algebra_simps)
  from n have ab: "?a \<le> ?b" unfolding b by simp
  have "n * (i0 + 1) \<le> n * (i0 + length (row # rest))" by (rule mult_le_mono2) simp
  with Cons.prems(2) have bl: "?b \<le> length data" by simp
  from nr(1) n have ln: "length nrows = ?b - ?a" unfolding b by simp
  from nr(2) assms(4) have "list_all (\<lambda>row. length row = c) nrows"
    by (auto simp: list_all_iff dest: negative_of_length)
  from assign_slice_rows [OF ab bl ln this] a
  have data1: "data1 = take ?a data @ nrows @ drop ?b data" by simp
  note sp = nth_splice [OF ab bl ln, folded data1]
  from Cons.prems(2) sp(1) have len1: "length data1 = n * (Suc i0 + length rest)" by simp
  note ih = Cons.IH [OF l len1]
  from ih sp(1) have "length data' = length data" by simp
  moreover have "data' ! p = data ! p" if "p < n * i0" for p
  proof -
    from that have "p < n * Suc i0" "p < ?a" by simp_all
    with ih sp(2) show ?thesis by simp
  qed
  moreover have "data' ! (n * (i0 + j)) = data ! (n * (i0 + j)) \<and>
      (\<forall>q. 1 \<le> q \<and> q < n \<longrightarrow>
         negative_of rng container ((row # rest) ! j) (data' ! (n * (i0 + j) + q)))"
    if "j < length (row # rest)" for j
  proof (cases j)
    case 0
    from n have "n * i0 < n * Suc i0" "n * i0 < ?a" by simp_all
    with ih sp(2) have first: "data' ! (n * i0) = data ! (n * i0)" by simp
    have "negative_of rng container row (data' ! (n * i0 + q))" if "1 \<le> q" "q < n" for q
    proof -
      from that have p: "?a \<le> n * i0 + q" "n * i0 + q < ?b" unfolding b by simp_all
      then have "n * i0 + q < n * Suc i0" by simp
      with ih have "data' ! (n * i0 + q) = data1 ! (n * i0 + q)" by simp
      also from sp(3) [OF p] have "\<dots> = nrows ! (n * i0 + q - ?a)" .
      also from that have "n * i0 + q - ?a = q - 1" by simp
      finally have "data' ! (n * i0 + q) = nrows ! (q - 1)" .
      moreover from that ln have "q - 1 < length nrows" unfolding b by simp
      with nr(2) have "negative_of rng container row (nrows ! (q - 1))"
        by (simp add: list_all_length)
      ultimately show ?thesis by simp
    qed
    with first 0 show ?thesis by simp
  next
    case (Suc j')
    with that have j': "j' < length rest" by simp
    have e: "n * (i0 + j) = n * (Suc i0 + j')" by (simp add: Suc)
    have "n * Suc i0 \<le> n * (Suc i0 + j')" by (rule mult_le_mono2) simp
    then have ge: "?b \<le> n * (Suc i0 + j')" by simp
    from j' have "Suc i0 + j' < i0 + length (row # rest)" by simp
    with n have "n * (Suc i0 + j') < n * (i0 + length (row # rest))" by simp
    with Cons.prems(2) have lt: "n * (Suc i0 + j') < length data" by simp
    from ih j' have "data' ! (n * (Suc i0 + j')) = data1 ! (n * (Suc i0 + j'))" by blast
    also from sp(4) [OF ge lt] have "\<dots> = data ! (n * (Suc i0 + j'))" .
    finally have "data' ! (n * (i0 + j)) = data ! (n * (i0 + j))" unfolding e .
    moreover from ih j' have "\<forall>q. 1 \<le> q \<and> q < n \<longrightarrow>
        negative_of rng container (rest ! j') (data' ! (n * (Suc i0 + j') + q))" by blast
    ultimately show ?thesis unfolding e Suc by simp
  qed
  ultimately show ?case by blast
qed

lemma add_negative_sampling_result:
  assumes "add_negative_sampling container num d tape = Returns (d', tape')"
    and "0 < num" "idrange d = Some rng" "rng \<noteq> []" "length rng + 1 = ncols d"
  shows "ncols d' = ncols d" "idrange d' = idrange d"
    and "length (interactions d') = nat (num + 1) * length (interactions d)"
    and "j < length (interactions d) \<Longrightarrow>
         interactions d' ! (nat (num + 1) * j) = interactions d ! j"
    and "j < length (interactions d) \<Longrightarrow> 1 \<le> q \<Longrightarrow> q < nat (num + 1) \<Longrightarrow>
         negative_of rng container (interactions d ! j) (interactions d' ! (nat (num + 1) * j + q))"
proof -
  let ?n = "nat (num + 1)"
  let ?data = "np_repeat ?n (interactions d)"
  from assms(1,2,3) obtain data' where
    l: "sampling_loop (Some rng) container num (ncols d) (enumerate 0 (interactions d)) ?data tape
        = Returns (data', tape')" and d': "d' = d\<lparr>interactions := data'\<rparr>"
    by (auto simp: add_negative_sampling_def split: outcome.splits)
  have len: "length ?data = ?n * (0 + length (interactions d))" by (simp add: length_np_repeat)
  note res = sampling_loop_result [OF l assms(2,4,5) refl len]
  from assms(2) have n: "0 < ?n" by simp
  show "ncols d' = ncols d" "idrange d' = idrange d" by (simp_all add: d')
  from res show "length (interactions d') = ?n * length (interactions d)"
    by (simp add: d' length_np_repeat)
  show "interactions d' ! (?n * j) = interactions d ! j" if "j < length (interactions d)"
  proof -
    from res that have "data' ! (?n * j) = ?data ! (?n * j)" by simp
    also from nth_np_repeat [OF that n, of ] have "\<dots> = interactions d ! j" by simp
    finally show ?thesis by (simp add: d')
  qed
  show "negative_of rng container (interactions d ! j) (interactions d' ! (?n * j + q))"
    if "j < length (interactions d)" "1 \<le> q" "q < ?n"
    using res that by (simp add: d')
qed

lemma combinations2_nth:
  "a < b \<Longrightarrow> b < length xs \<Longrightarrow> (xs ! a, xs ! b) \<in> set (combinations2 xs)"
proof (induction xs arbitrary: a b)
  case Nil
  then show ?case by simp
next
  case (Cons x xs)
  from Cons.prems obtain b' where b: "b = Suc b'" "b' < length xs" by (cases b) auto
  show ?case
  proof (cases a)
    case 0
    with b show ?thesis by simp
  next
    case (Suc a')
    with Cons.prems b have "a' < b'" by simp
    from Cons.IH [OF this b(2)] Suc b show ?thesis by simp
  qed
qed

lemma negative_of_pairs:
  assumes "negative_of rng container row nrow" "a < b" "b < length rng"
  shows "(nrow ! a, nrow ! b) \<notin> container"
proof
  assume "(nrow ! a, nrow ! b) \<in> container"
  from assms(1) have len: "length (butlast nrow) = length rng" by (simp add: negative_of_def)
  with assms(2,3) have "(butlast nrow ! a, butlast nrow ! b) \<in> set (combinations2 (butlast nrow))"
    by (intro combinations2_nth) simp_all
  moreover from len assms(2,3) have "butlast nrow ! a = nrow ! a" "butlast nrow ! b = nrow ! b"
    by (simp_all add: nth_butlast)
  ultimately have "row_comb_in_container nrow container"
    using \<open>(nrow ! a, nrow ! b) \<in> container\<close>
    by (auto simp: row_comb_in_container_def list_ex_iff)
  with assms(1) show False by (simp add: negative_of_def)
qed

lemma negative_of_label: "negative_of rng container row nrow \<Longrightarrow> last nrow = 0"
proof -
  assume n: "negative_of rng container row nrow"
  then have "length nrow = Suc (length rng)" "nrow ! length rng = 0"
    by (simp_all add: negative_of_def)
  then show ?thesis by (cases nrow rule: rev_cases) (simp_all add: nth_append)
qed

lemma negative_of_cell:
  assumes "negative_of rng container row nrow" "1 \<le> i" "i < length rng"
  shows "nrow ! i \<noteq> row ! i" "nrow ! i \<in> sub_range rng i"
  using assms by (simp_all add: negative_of_def list_all_iff)

lemma wf_sampling_table: "wf_dataset sampling_table"
  by (simp add: wf_dataset_def sampling_table_def)

lemma sampling_run_two:
  "add_negative_sampling sampling_container 2 sampling_table [0, 1, 1, 1, 1, 0, 0, 0, 0] =
   Returns (sampling_table\<lparr>interactions :=
              [[0, 2, 4, 1], [0, 3, 5, 0], [0, 3, 5, 0], [1, 3, 5, 1], [1, 2, 4, 0], [1, 2, 4, 0]]\<rparr>, [])"
  by code_simp

lemma sampling_run_one:
  "add_negative_sampling sampling_container 1 sampling_table [1, 1, 0, 0] =
   Returns (sampling_table\<lparr>interactions :=
              [[0, 2, 4, 1], [0, 3, 5, 0], [1, 3, 5, 1], [1, 2, 4, 0]]\<rparr>, [])"
  by code_simp

text \<open>
  Claim C1. When \<open>add_negative_sampling(container, 2)\<close> returns on a normalized table of
  \<open>N\<close> rows, the table has \<open>3 * N\<close> rows; row \<open>3 * j\<close> is the old row \<open>j\<close>; and each of the
  two rows after it has label 0, an item that is not the item of row \<open>j\<close>, and no pair of
  its entity cells in the container, the pair of its user and its item among them.
\<close>

theorem add_negative_sampling_two:
  assumes "wf_dataset d" "idrange d = Some rng" "length rng + 1 = ncols d"
    and "add_negative_sampling container 2 d tape = Returns (d', tape')"
  shows "length (interactions d') = 3 * length (interactions d) \<and>
         (\<forall>j < length (interactions d).
            interactions d' ! (3 * j) = interactions d ! j \<and>
            (\<forall>q. 1 \<le> q \<and> q < 3 \<longrightarrow>
               last (interactions d' ! (3 * j + q)) = 0 \<and>
               interactions d' ! (3 * j + q) ! 1 \<noteq> interactions d ! j ! 1 \<and>
               (\<forall>a b. a < b \<and> b < ncols d - 1 \<longrightarrow>
                  (interactions d' ! (3 * j + q) ! a, interactions d' ! (3 * j + q) ! b) \<notin> container) \<and>
               (interactions d' ! (3 * j + q) ! 0, interactions d' ! (3 * j + q) ! 1) \<notin> container))"
proof -
  from assms(1,3) have r: "rng \<noteq> []" "1 < length rng" "length rng = ncols d - 1"
    by (auto simp: wf_dataset_def)
  have three: "nat (2 + 1) = 3" by simp
  note res = add_negative_sampling_result [OF assms(4) _ assms(2) r(1) assms(3), unfolded three]
  have "last (interactions d' ! (3 * j + q)) = 0 \<and>
        interactions d' ! (3 * j + q) ! 1 \<noteq> interactions d ! j ! 1 \<and>
        (\<forall>a b. a < b \<and> b < ncols d - 1 \<longrightarrow>
           (interactions d' ! (3 * j + q) ! a, interactions d' ! (3 * j + q) ! b) \<notin> container) \<and>
        (interactions d' ! (3 * j + q) ! 0, interactions d' ! (3 * j + q) ! 1) \<notin> container"
    if "j < length (interactions d)" "1 \<le> q" "q < 3" for j q
  proof -
    from res(5) [OF _ that] have n: "negative_of rng container (interactions d ! j)
        (interactions d' ! (3 * j + q))" by simp
    from negative_of_pairs [OF n] r(3) have
      "\<forall>a b. a < b \<and> b < ncols d - 1 \<longrightarrow>
         (interactions d' ! (3 * j + q) ! a, interactions d' ! (3 * j + q) ! b) \<notin> container"
      by simp
    moreover from negative_of_pairs [OF n, of 0 1] r(2) have
      "(interactions d' ! (3 * j + q) ! 0, interactions d' ! (3 * j + q) ! 1) \<notin> container"
      by simp
    moreover note negative_of_label [OF n] negative_of_cell(1) [OF n _ r(2)]
    ultimately show ?thesis by simp
  qed
  moreover from res(3) have "length (interactions d') = 3 * length (interactions d)" by simp
  moreover from res(4) have "\<forall>j < length (interactions d). interactions d' ! (3 * j) = interactions d ! j"
    by simp
  ultimately show ?thesis by blast
qed

theorem add_negative_sampling_two_witness:
  "wf_dataset sampling_table \<and> idrange sampling_table = Some [2, 4, 6] \<and>
   length [2, 4, 6 :: int] + 1 = ncols sampling_table \<and>
   (\<exists>d'. add_negative_sampling sampling_container 2 sampling_table [0, 1, 1, 1, 1, 0, 0, 0, 0]
           = Returns (d', []) \<and>
      length (interactions d') = 3 * length (interactions sampling_table) \<and>
      (\<forall>j < length (interactions sampling_table).
         interactions d' ! (3 * j) = interactions sampling_table ! j \<and>
         (\<forall>q. 1 \<le> q \<and> q < 3 \<longrightarrow>
            last (interactions d' ! (3 * j + q)) = 0 \<and>
            interactions d' ! (3 * j + q) ! 1 \<noteq> interactions sampling_table ! j ! 1 \<and>
            (\<forall>a b. a < b \<and> b < ncols sampling_table - 1 \<longrightarrow>
               (interactions d' ! (3 * j + q) ! a, interactions d' ! (3 * j + q) ! b)
               \<notin> sampling_container) \<and>
            (interactions d' ! (3 * j + q) ! 0, interactions d' ! (3 * j + q) ! 1)
            \<notin> sampling_container)))"
proof -
  have i: "idrange sampling_table = Some [2, 4, 6]"
    and l: "length [2, 4, 6 :: int] + 1 = ncols sampling_table"
    by (simp_all add: sampling_table_def)
  from add_negative_sampling_two [OF wf_sampling_table i l sampling_run_two]
    wf_sampling_table i l sampling_run_two
  show ?thesis by blast
qed

text \<open>
  Claim C7, as the code has it. A negative row keeps the user of its source row. Every
  other column before the label, the item and each context column, gets a new value of
  the sub-range of the column that differs from the value of the source row. The label
  is 0.
\<close>

theorem negative_rows_redrawn:
  assumes "wf_dataset d" "idrange d = Some rng" "length rng + 1 = ncols d" "0 < num"
    and "add_negative_sampling container num d tape = Returns (d', tape')"
  shows "\<forall>j < length (interactions d). \<forall>q. 1 \<le> q \<and> q \<le> nat num \<longrightarrow>
           interactions d' ! (nat (num + 1) * j + q) ! 0 = interactions d ! j ! 0 \<and>
           (\<forall>i. 1 \<le> i \<and> i < ncols d - 1 \<longrightarrow>
              interactions d' ! (nat (num + 1) * j + q) ! i \<noteq> interactions d ! j ! i \<and>
              interactions d' ! (nat (num + 1) * j + q) ! i \<in> sub_range rng i) \<and>
           interactions d' ! (nat (num + 1) * j + q) ! (ncols d - 1) = 0"
proof (intro allI impI)
  fix j q
  assume j: "j < length (interactions d)" and q: "1 \<le> q \<and> q \<le> nat num"
  from assms(1,3) have r: "rng \<noteq> []" "length rng = ncols d - 1" by (auto simp: wf_dataset_def)
  from assms(4) have "nat (num + 1) = Suc (nat num)" by linarith
  with q have q': "1 \<le> q" "q < nat (num + 1)" by simp_all
  from add_negative_sampling_result(5) [OF assms(5,4,2) r(1) assms(3) j q']
  have n: "negative_of rng container (interactions d ! j)
      (interactions d' ! (nat (num + 1) * j + q))" .
  from n have "interactions d' ! (nat (num + 1) * j + q) ! 0 = interactions d ! j ! 0"
    "interactions d' ! (nat (num + 1) * j + q) ! (ncols d - 1) = 0"
    by (simp_all add: negative_of_def r(2))
  moreover from negative_of_cell [OF n] r(2) have
    "\<forall>i. 1 \<le> i \<and> i < ncols d - 1 \<longrightarrow>
       interactions d' ! (nat (num + 1) * j + q) ! i \<noteq> interactions d ! j ! i \<and>
       interactions d' ! (nat (num + 1) * j + q) ! i \<in> sub_range rng i"
    by simp
  ultimately show "interactions d' ! (nat (num + 1) * j + q) ! 0 = interactions d ! j ! 0 \<and>
           (\<forall>i. 1 \<le> i \<and> i < ncols d - 1 \<longrightarrow>
              interactions d' ! (nat (num + 1) * j + q) ! i \<noteq> interactions d ! j ! i \<and>
              interactions d' ! (nat (num + 1) * j + q) ! i \<in> sub_range rng i) \<and>
           interactions d' ! (nat (num + 1) * j + q) ! (ncols d - 1) = 0"
    by blast
qed

theorem negative_rows_redrawn_witness:
  "wf_dataset sampling_table \<and> idrange sampling_table = Some [2, 4, 6] \<and>
   length [2, 4, 6 :: int] + 1 = ncols sampling_table \<and> (0::int) < 1 \<and>
   (\<exists>d'. add_negative_sampling sampling_container 1 sampling_table [1, 1, 0, 0] = Returns (d', []) \<and>
      (\<forall>j < length (interactions sampling_table). \<forall>q. 1 \<le> q \<and> q \<le> nat 1 \<longrightarrow>
         interactions d' ! (nat (1 + 1) * j + q) ! 0 = interactions sampling_table ! j ! 0 \<and>
         (\<forall>i. 1 \<le> i \<and> i < ncols sampling_table - 1 \<longrightarrow>
            interactions d' ! (nat (1 + 1) * j + q) ! i \<noteq> interactions sampling_table ! j ! i \<and>
            interactions d' ! (nat (1 + 1) * j + q) ! i \<in> sub_range [2, 4, 6] i) \<and>
         interactions d' ! (nat (1 + 1) * j + q) ! (ncols sampling_table - 1) = 0))"
proof -
  have i: "idrange sampling_table = Some [2, 4, 6]"
    and l: "length [2, 4, 6 :: int] + 1 = ncols sampling_table"
    by (simp_all add: sampling_table_def)
  have p: "(0::int) < 1" by simp
  from negative_rows_redrawn [OF wf_sampling_table i l p sampling_run_one]
    wf_sampling_table i l p sampling_run_one
  show ?thesis by blast
qed

text \<open>
  The context column is not kept: in the run with one negative per row, the negative of
  the first row (0, 2, 4, 1) is (0, 3, 5, 0), with context 5 where the source has 4.
\<close>

theorem negative_rows_context_counterexample:
  "add_negative_sampling sampling_container 1 sampling_table [1, 1, 0, 0] =
     Returns (sampling_table\<lparr>interactions :=
                [[0, 2, 4, 1], [0, 3, 5, 0], [1, 3, 5, 1], [1, 2, 4, 0]]\<rparr>, []) \<and>
   interactions sampling_table ! 0 ! 2 = 4 \<and>
   [[0, 2, 4, 1], [0, 3, 5, 0], [1, 3, 5, 1], [1, 2, 4, 0]] ! 1 ! 2 = (5::int)"
  using sampling_run_one by (simp add: sampling_table_def)

subsection \<open>The worked example of normalization\<close>

text \<open>
  Claim C4, as the code has it. On the rows (0,0,1), (0,1,1), (1,0,1) the call
  \<open>normalize_ids()\<close> finds two users and two items: it returns the mapping
  \<open>[[0,1],[0,1]]\<close>, sets \<open>idrange = [2,4]\<close> and turns the rows into (0,2,1), (0,3,1),
  (1,2,1), removing none.
\<close>

theorem normalize_ids_example:
  "normalize_ids None True
     \<lparr>interactions = [[0, 0, 1], [0, 1, 1], [1, 0, 1]], ncols = 3, idrange = None\<rparr>
   = Inr ([[0, 1], [0, 1]],
          \<lparr>interactions = [[0, 2, 1], [0, 3, 1], [1, 2, 1]], ncols = 3, idrange = Some [2, 4]\<rparr>)"
  by code_simp

text \<open>The same call does not give \<open>idrange = [2,5]\<close>: there are two items, not three.\<close>

theorem normalize_ids_example_counterexample:
  "map_sum id (idrange \<circ> snd)
     (normalize_ids None True
        \<lparr>interactions = [[0, 0, 1], [0, 1, 1], [1, 0, 1]], ncols = 3, idrange = None\<rparr>)
   \<noteq> Inr (Some [2, 5])"
  by code_simp

end
